theory Spec2Isabelle
  imports Complex_Main "HOL-Library.AList" "HOL-Library.Log_Nat"
begin

section \<open>Data model of coturn\_loadbalancer.py\<close>

text \<open>
  Exceptions of the Python program, as values. \<open>ConfigException\<close> is the plain
  \<^verbatim>\<open>Exception("Unable to identify servers from metrics lables, ...")\<close> raised by
  \<^verbatim>\<open>process_metrics\<close>; \<open>JSONError\<close> stands for whatever
  \<^verbatim>\<open>response.json()['data']['result']\<close> raises on a malformed body.
\<close>

datatype error =
    IndexError | KeyError | TypeError | AttributeError | ValueError
  | StatisticsError | JSONError | ConfigException

text \<open>
  A Python \<^verbatim>\<open>dict\<close> is kept as an association list in insertion order. Reading a key
  is \<open>map_of\<close>, storing one is \<open>AList.update\<close> (an existing key keeps its place, a new
  key goes to the end), and iteration sees every key once, in the order of its first
  occurrence: \<open>dict_items\<close>. With this reading every association list denotes a dict.
\<close>

type_synonym ('k, 'v) dict = "('k \<times> 'v) list"

definition dict_items :: "('k, 'v) dict \<Rightarrow> ('k \<times> 'v) list" where
  "dict_items d = AList.clearjunk d"

definition dict_values :: "('k, 'v) dict \<Rightarrow> 'v list" where
  "dict_values d = map snd (dict_items d)"

text \<open>
  One entry of \<^verbatim>\<open>turn_data\<close>:
  \<^verbatim>\<open>dict(initial=0, success_th=success_th, failed_checks=None, healthy=None)\<close>.
\<close>

record server_data =
  initial :: int
  success_th :: int
  failed_checks :: "int option"
  healthy :: "bool option"

text \<open>The two module-level globals \<^verbatim>\<open>turn_server\<close> and \<^verbatim>\<open>turn_data\<close>, both \<^verbatim>\<open>None\<close> at start.\<close>

record state =
  turn_server :: "string option"
  turn_data :: "(string, server_data) dict option"

text \<open>
  The part of the YAML configuration the modelled code reads:
  \<open>address\<close> is \<^verbatim>\<open>turn['addressMapping'].values()\<close>, \<open>successThreshold\<close> is
  \<^verbatim>\<open>healthCheck['successThreshold']\<close>, \<open>algorithm\<close> and \<open>durationMinutes\<close> are the
  entries of \<^verbatim>\<open>loadBalancer\<close>.
\<close>

record config =
  address :: "string list"
  successThreshold :: int
  algorithm :: string
  durationMinutes :: int

text \<open>
  \<^verbatim>\<open>random.choice\<close>: the random source is the extra argument \<open>rnd\<close>; on an empty
  sequence Python raises \<^verbatim>\<open>IndexError\<close>.
\<close>

definition choice :: "nat \<Rightarrow> 'a list \<Rightarrow> error + 'a" where
  "choice rnd xs = (if xs = [] then Inl IndexError else Inr (xs ! (rnd mod length xs)))"

section \<open>class Fallback\<close>

definition random_server :: "config \<Rightarrow> nat \<Rightarrow> state \<Rightarrow> error + state" where
  "random_server cfg rnd s =
     (case choice rnd (address cfg) of
        Inl e \<Rightarrow> Inl e
      | Inr final_server \<Rightarrow> Inr (s\<lparr>turn_server := Some final_server\<rparr>))"

text \<open>\<^verbatim>\<open>[server for server, data in turn_data.items() if data['healthy'] is True]\<close>\<close>

definition healthy_servers :: "(string, server_data) dict \<Rightarrow> string list" where
  "healthy_servers td = map fst (filter (\<lambda>(server, data). healthy data = Some True) (dict_items td))"

definition random_healthy_server :: "config \<Rightarrow> nat \<Rightarrow> state \<Rightarrow> error + state" where
  "random_healthy_server cfg rnd s =
     (case turn_data s of
        None \<Rightarrow> Inl AttributeError
      | Some td \<Rightarrow>
          if healthy_servers td \<noteq> [] then
            (case choice rnd (healthy_servers td) of
               Inl e \<Rightarrow> Inl e
             | Inr final_server \<Rightarrow> Inr (s\<lparr>turn_server := Some final_server\<rparr>))
          else random_server cfg rnd s)"

section \<open>class HealthCheck\<close>

text \<open>\<^verbatim>\<open>len([0 for v in turn_data.values() if v['healthy'] is False])\<close>\<close>

definition unhealthy_count :: "(string, server_data) dict \<Rightarrow> nat" where
  "unhealthy_count td = length (filter (\<lambda>v. healthy v = Some False) (dict_values td))"

text \<open>
  \<^verbatim>\<open>check_current_server\<close>. The condition is a chain of \<^verbatim>\<open>and\<close>: a \<^verbatim>\<open>turn_server\<close> that
  is \<^verbatim>\<open>None\<close> or the empty string is falsy and ends the test before \<^verbatim>\<open>turn_data\<close> is read.
  \<^verbatim>\<open>n in range(1, len(turn_data))\<close> is \<open>1 \<le> n \<and> n < len\<close>.
\<close>

definition check_current_server :: "config \<Rightarrow> nat \<Rightarrow> state \<Rightarrow> error + state" where
  "check_current_server cfg rnd s =
     (case turn_server s of
        None \<Rightarrow> Inr s
      | Some current \<Rightarrow>
          if current = [] then Inr s
          else
            (case turn_data s of
               None \<Rightarrow> Inl AttributeError
             | Some td \<Rightarrow>
                 if 1 \<le> unhealthy_count td \<and> unhealthy_count td < length (dict_items td)
                    \<and> current \<notin> set (healthy_servers td)
                 then random_healthy_server cfg rnd s
                 else Inr s))"

text \<open>
  \<^verbatim>\<open>process_health_check\<close>, first half (``update 'failed\_checks' value''). Comparing
  \<^verbatim>\<open>None\<close> with \<^verbatim>\<open>==\<close> is false; ordering it or doing arithmetic on it raises
  \<^verbatim>\<open>TypeError\<close>, which is what every path does when \<^verbatim>\<open>healthy\<close> is set and
  \<^verbatim>\<open>failed_checks\<close> is still \<^verbatim>\<open>None\<close>.
\<close>

definition update_failed_checks :: "bool \<Rightarrow> server_data \<Rightarrow> error + server_data" where
  "update_failed_checks healthcheck_passed d =
     (case healthy d of
        None \<Rightarrow>
          if healthcheck_passed then Inr (d\<lparr>failed_checks := Some 0\<rparr>)
          else Inr (d\<lparr>failed_checks := Some (success_th d)\<rparr>)
      | Some h \<Rightarrow>
          (case failed_checks d of
             None \<Rightarrow> Inl TypeError
           | Some fc \<Rightarrow>
               if healthcheck_passed then
                 (if fc = initial d then Inr d
                  else if h \<and> fc > initial d then Inr (d\<lparr>failed_checks := Some (initial d)\<rparr>)
                  else Inr (d\<lparr>failed_checks := Some (fc - 1)\<rparr>))
               else
                 (if fc = success_th d then Inr d
                  else if \<not> h \<and> fc < success_th d then Inr (d\<lparr>failed_checks := Some (success_th d)\<rparr>)
                  else Inr (d\<lparr>failed_checks := Some (fc + 1)\<rparr>))))"

text \<open>Second half (``update 'healthy' value'').\<close>

definition update_healthy :: "server_data \<Rightarrow> server_data" where
  "update_healthy d =
     (if failed_checks d = Some 0 then
        (if healthy d \<noteq> Some True then d\<lparr>healthy := Some True\<rparr> else d)
      else if failed_checks d = Some (success_th d) then
        (if healthy d \<noteq> Some False then d\<lparr>healthy := Some False\<rparr> else d)
      else d)"

text \<open>
  The whole of \<^verbatim>\<open>process_health_check(server, healthcheck_passed)\<close>: the entry
  \<^verbatim>\<open>turn_data[server]\<close> is rewritten, then \<^verbatim>\<open>check_current_server\<close> runs.
\<close>

definition process_health_check :: "config \<Rightarrow> string \<Rightarrow> bool \<Rightarrow> nat \<Rightarrow> state \<Rightarrow> error + state" where
  "process_health_check cfg server healthcheck_passed rnd s =
     (case turn_data s of
        None \<Rightarrow> Inl TypeError
      | Some td \<Rightarrow>
          (case map_of td server of
             None \<Rightarrow> Inl KeyError
           | Some d \<Rightarrow>
               (case update_failed_checks healthcheck_passed d of
                  Inl e \<Rightarrow> Inl e
                | Inr d1 \<Rightarrow>
                    check_current_server cfg rnd
                      (s\<lparr>turn_data := Some (AList.update server (update_healthy d1) td)\<rparr>))))"

text \<open>
  The table built at the start of \<^verbatim>\<open>HealthCheck.run\<close> (a dict comprehension over
  \<^verbatim>\<open>turn['addressMapping'].values()\<close>).
\<close>

definition HealthCheck_init :: "config \<Rightarrow> (string, server_data) dict" where
  "HealthCheck_init cfg =
     map (\<lambda>server. (server, \<lparr>initial = 0, success_th = successThreshold cfg,
                               failed_checks = None, healthy = None\<rparr>)) (address cfg)"

text \<open>
  A run of probe results for one endpoint: every element is the outcome of one
  \<^verbatim>\<open>_get_health_tcp(server)\<close> together with the random source of that call.
\<close>

fun probes :: "config \<Rightarrow> string \<Rightarrow> (bool \<times> nat) list \<Rightarrow> state \<Rightarrow> error + state" where
  "probes cfg server [] s = Inr s"
| "probes cfg server ((passed, rnd) # ps) s =
     (case process_health_check cfg server passed rnd s of
        Inl e \<Rightarrow> Inl e
      | Inr s' \<Rightarrow> probes cfg server ps s')"

text \<open>
  The health-check loop over all endpoints: \<^verbatim>\<open>main_tcp\<close> gathers one probe per address
  and the results arrive in any order, cycle after cycle; an element is
  (server, healthcheck\_passed, random source).
\<close>

fun health_checks :: "config \<Rightarrow> (string \<times> bool \<times> nat) list \<Rightarrow> state \<Rightarrow> error + state" where
  "health_checks cfg [] s = Inr s"
| "health_checks cfg ((server, passed, rnd) # evs) s =
     (case process_health_check cfg server passed rnd s of
        Inl e \<Rightarrow> Inl e
      | Inr s' \<Rightarrow> health_checks cfg evs s')"

text \<open>
  Readers used in the statements below: what one call of \<^verbatim>\<open>process_health_check\<close> does
  to the entry it is given (both halves, in order), \<^verbatim>\<open>turn_data[server]\<close>, and that entry
  after a run of probes (\<open>None\<close> if the run raised).
\<close>

definition update_entry :: "bool \<Rightarrow> server_data \<Rightarrow> error + server_data" where
  "update_entry healthcheck_passed d =
     (case update_failed_checks healthcheck_passed d of
        Inl e \<Rightarrow> Inl e
      | Inr d1 \<Rightarrow> Inr (update_healthy d1))"

definition entry :: "state \<Rightarrow> string \<Rightarrow> server_data option" where
  "entry s server = (case turn_data s of None \<Rightarrow> None | Some td \<Rightarrow> map_of td server)"

definition after_probes :: "config \<Rightarrow> string \<Rightarrow> (bool \<times> nat) list \<Rightarrow> state \<Rightarrow> server_data option" where
  "after_probes cfg server ps s =
     (case probes cfg server ps s of Inl e \<Rightarrow> None | Inr s' \<Rightarrow> entry s' server)"

section \<open>class LoadBalancer\<close>

text \<open>
  A Python \<^verbatim>\<open>float\<close> (an IEEE 754 binary64 number): a finite value, kept as the
  rational it denotes, or one of the infinities, or a NaN. The two zeros are one
  value here; \<^verbatim>\<open><\<close>, \<^verbatim>\<open>==\<close> and \<^verbatim>\<open>statistics.mean\<close> do not tell them apart.
\<close>

datatype pyfloat = Finite rat | PosInf | NegInf | NaN

text \<open>\<^verbatim>\<open>a < b\<close> and \<^verbatim>\<open>a == b\<close> on floats: every comparison with a NaN is false.\<close>

fun float_lt :: "pyfloat \<Rightarrow> pyfloat \<Rightarrow> bool" where
  "float_lt (Finite x) (Finite y) = (x < y)"
| "float_lt (Finite x) PosInf = True"
| "float_lt NegInf (Finite y) = True"
| "float_lt NegInf PosInf = True"
| "float_lt _ _ = False"

fun float_eq :: "pyfloat \<Rightarrow> pyfloat \<Rightarrow> bool" where
  "float_eq (Finite x) (Finite y) = (x = y)"
| "float_eq PosInf PosInf = True"
| "float_eq NegInf NegInf = True"
| "float_eq _ _ = False"

fun is_finite :: "pyfloat \<Rightarrow> bool" where
  "is_finite (Finite x) = True"
| "is_finite _ = False"

text \<open>
  Rounding a rational to the nearest binary64 number, ties to the even significand, as
  \<^verbatim>\<open>float(Fraction)\<close> does: \<open>exponent2 x\<close> is the integer \<open>e\<close> with
  \<open>2 powi e \<le> \<bar>x\<bar>\<close> and \<open>\<bar>x\<bar> < 2 powi (e + 1)\<close>, the spacing of the doubles around \<open>x\<close>
  is \<open>2 powi (e - 52)\<close>, and below \<open>2 powi (- 1022)\<close> (the subnormal range) it stays
  \<open>2 powi (- 1074)\<close>. The mean of doubles lies between the least and the greatest of
  them, so the result is in range.
\<close>

definition exponent2 :: "rat \<Rightarrow> int" where
  "exponent2 x =
     (let (p, q) = quotient_of \<bar>x\<bar>; e0 = bitlen p - bitlen q
      in if 2 powi e0 \<le> \<bar>x\<bar> then e0 else e0 - 1)"

definition round_half_even :: "rat \<Rightarrow> int" where
  "round_half_even y =
     (let f = \<lfloor>y\<rfloor>; d = y - of_int f
      in if d < 1 / 2 then f else if 1 / 2 < d then f + 1 else if even f then f else f + 1)"

definition round_double :: "rat \<Rightarrow> rat" where
  "round_double x =
     (if x = 0 then 0
      else
        (let e = max (exponent2 x) (- 1022); quantum = 2 powi (e - 52)
         in of_int (round_half_even (x / quantum)) * quantum))"

text \<open>
  One element of the Prometheus result list: \<^verbatim>\<open>server_metric['metric']\<close> is a dict from
  label names to label values, \<^verbatim>\<open>server_metric['values']\<close> a list of (timestamp, value)
  pairs. The second component is \<^verbatim>\<open>float(value[1])\<close>, the text taken as already parsed
  (Prometheus also sends \<^verbatim>\<open>"NaN"\<close>, \<^verbatim>\<open>"+Inf"\<close> and \<^verbatim>\<open>"-Inf"\<close>).
\<close>

record series =
  metric :: "(string, string) dict"
  series_values :: "(rat \<times> pyfloat) list"

text \<open>
  What \<^verbatim>\<open>requests.get\<close> does in \<^verbatim>\<open>get_prometheus_metrics\<close>: it raises, or it answers
  with \<^verbatim>\<open>response.ok\<close> false, or with a body whose \<^verbatim>\<open>['data']['result']\<close> is a list,
  or with a body on which \<^verbatim>\<open>response.json()['data']['result']\<close> raises. A body whose
  result is some other value is handled by the caller like the string of the second
  case, neither being a list, and has no constructor of its own.
\<close>

datatype response =
    RequestRaises
  | ResponseNotOk
  | ResponseResult "series list"
  | ResponseMalformed

text \<open>
  What \<^verbatim>\<open>get_prometheus_metrics\<close> returns: the caught exception object, the string
  \<^verbatim>\<open>f'{response}'\<close>, or the result list.
\<close>

datatype query_result = ReturnedError | ReturnedString | ReturnedList "series list"

text \<open>
  \<^verbatim>\<open>get_prometheus_metrics\<close>, from the \<^verbatim>\<open>try\<close> on. Only \<^verbatim>\<open>requests.get\<close> is inside the
  \<^verbatim>\<open>try\<close>; the \<^verbatim>\<open>else\<close> branch is not protected.
\<close>

definition get_prometheus_metrics :: "response \<Rightarrow> error + query_result" where
  "get_prometheus_metrics resp =
     (case resp of
        RequestRaises \<Rightarrow> Inr ReturnedError
      | ResponseNotOk \<Rightarrow> Inr ReturnedString
      | ResponseMalformed \<Rightarrow> Inl JSONError
      | ResponseResult result \<Rightarrow> Inr (ReturnedList result))"

text \<open>
  The inner loop of \<^verbatim>\<open>process_metrics\<close>: the first label whose value is one of
  \<^verbatim>\<open>turn['addressMapping'].values()\<close>, or \<^verbatim>\<open>None\<close>.
\<close>

fun find_label :: "string list \<Rightarrow> (string \<times> string) list \<Rightarrow> string option" where
  "find_label reg [] = None"
| "find_label reg ((label, v) # rest) =
     (if v \<in> set reg then Some label else find_label reg rest)"

text \<open>
  The body of the outer loop of \<^verbatim>\<open>process_metrics\<close> for one series. \<^verbatim>\<open>not metric_label\<close>
  holds for \<^verbatim>\<open>None\<close> and for an empty label name.
\<close>

definition process_series ::
  "config \<Rightarrow> series \<Rightarrow> (string, pyfloat list) dict \<Rightarrow> error + (string, pyfloat list) dict" where
  "process_series cfg server_metric values_dict =
     (case find_label (address cfg) (dict_items (metric server_metric)) of
        None \<Rightarrow> Inl ConfigException
      | Some metric_label \<Rightarrow>
          if metric_label = [] then Inl ConfigException
          else
            (let lines_list = map snd (series_values server_metric) in
             case map_of (metric server_metric) metric_label of
               None \<Rightarrow> Inl KeyError
             | Some server \<Rightarrow>
                 if int (length lines_list) < durationMinutes cfg then Inr values_dict
                 else Inr (AList.update server lines_list values_dict)))"

fun process_metrics_loop ::
  "config \<Rightarrow> series list \<Rightarrow> (string, pyfloat list) dict \<Rightarrow> error + (string, pyfloat list) dict" where
  "process_metrics_loop cfg [] values_dict = Inr values_dict"
| "process_metrics_loop cfg (server_metric # rest) values_dict =
     (case process_series cfg server_metric values_dict of
        Inl e \<Rightarrow> Inl e
      | Inr values_dict' \<Rightarrow> process_metrics_loop cfg rest values_dict')"

definition process_metrics :: "config \<Rightarrow> series list \<Rightarrow> error + (string, pyfloat list) dict" where
  "process_metrics cfg query_result = process_metrics_loop cfg query_result []"

text \<open>
  The exact arithmetic mean of rationals, and the rational values of the finite floats
  of a list.
\<close>

definition avg :: "rat list \<Rightarrow> rat" where
  "avg data_points = sum_list data_points / of_nat (length data_points)"

fun finite_values :: "pyfloat list \<Rightarrow> rat list" where
  "finite_values [] = []"
| "finite_values (Finite x # rest) = x # finite_values rest"
| "finite_values (_ # rest) = finite_values rest"

text \<open>
  \<^verbatim>\<open>statistics._sum\<close> adds the values that are not finite apart, with float addition,
  in \<^verbatim>\<open>partials[None]\<close>, starting from \<^verbatim>\<open>0 + x\<close>: equal infinities add to themselves,
  opposite infinities and anything with a NaN add to NaN. \<open>special_total\<close> is that
  entry, \<open>None\<close> when every value is finite.
\<close>

fun special_add :: "pyfloat \<Rightarrow> pyfloat \<Rightarrow> pyfloat" where
  "special_add PosInf PosInf = PosInf"
| "special_add NegInf NegInf = NegInf"
| "special_add _ _ = NaN"

definition special_total :: "pyfloat list \<Rightarrow> pyfloat option" where
  "special_total data =
     (case filter (\<lambda>x. \<not> is_finite x) data of
        [] \<Rightarrow> None
      | x # rest \<Rightarrow> Some (fold (\<lambda>y partial. special_add partial y) rest x))"

text \<open>
  \<^verbatim>\<open>statistics.mean\<close> on floats: \<^verbatim>\<open>StatisticsError\<close> on no data; if some value is not
  finite, that special total (divided by the count, which leaves an infinity or a NaN as
  it is); otherwise the exact sum as a \<^verbatim>\<open>Fraction\<close>, divided by the count and converted to
  a float once.
\<close>

definition mean :: "pyfloat list \<Rightarrow> error + pyfloat" where
  "mean data_points =
     (if data_points = [] then Inl StatisticsError
      else
        (case special_total data_points of
           Some partial \<Rightarrow> Inr partial
         | None \<Rightarrow> Inr (Finite (round_double (avg (finite_values data_points))))))"

text \<open>The dict comprehension \<^verbatim>\<open>{server: mean(data_points) for ...}\<close>, stopping at the first raise.\<close>

fun mean_all :: "(string \<times> pyfloat list) list \<Rightarrow> error + (string, pyfloat) dict" where
  "mean_all [] = Inr []"
| "mean_all ((server, data_points) # rest) =
     (case mean data_points of
        Inl e \<Rightarrow> Inl e
      | Inr m \<Rightarrow>
          (case mean_all rest of
             Inl e \<Rightarrow> Inl e
           | Inr ms \<Rightarrow> Inr ((server, m) # ms)))"

text \<open>
  The builtin \<^verbatim>\<open>min\<close> of a sequence: \<^verbatim>\<open>ValueError\<close> when it is empty; otherwise it keeps
  the first item and replaces it by a later one only if \<^verbatim>\<open>item < kept\<close>.
\<close>

definition py_min :: "pyfloat list \<Rightarrow> error + pyfloat" where
  "py_min xs =
     (case xs of
        [] \<Rightarrow> Inl ValueError
      | x # rest \<Rightarrow> Inr (fold (\<lambda>item kept. if float_lt item kept then item else kept) rest x))"

definition select_server :: "nat \<Rightarrow> (string, pyfloat list) dict \<Rightarrow> state \<Rightarrow> error + state" where
  "select_server rnd metrics s =
     (case mean_all (dict_items metrics) of
        Inl e \<Rightarrow> Inl e
      | Inr mean_metrics \<Rightarrow>
          (case py_min (map snd mean_metrics) of
             Inl e \<Rightarrow> Inl e
           | Inr min_value \<Rightarrow>
               (let all_matches =
                      filter (\<lambda>(server, mean_data). float_eq mean_data min_value) mean_metrics in
                case choice rnd (map fst all_matches) of
                  Inl e \<Rightarrow> Inl e
                | Inr final_server \<Rightarrow> Inr (s\<lparr>turn_server := Some final_server\<rparr>))))"

text \<open>
  The condition of the inner \<^verbatim>\<open>while True\<close> of \<^verbatim>\<open>LoadBalancer.run\<close>: the thread sleeps and
  looks again as long as it holds.
\<close>

definition initial_check_pending :: "state \<Rightarrow> bool" where
  "initial_check_pending s =
     (case turn_data s of
        None \<Rightarrow> True
      | Some td \<Rightarrow> filter (\<lambda>data. healthy data = None) (dict_values td) \<noteq> [])"

text \<open>
  One pass of the outer loop of \<^verbatim>\<open>LoadBalancer.run\<close> after the wait, up to the sleep.
  \<open>resp\<close> is what the metrics source does if it is asked. In
  \<^verbatim>\<open>[server for server, data in turn_data.items() if data['healthy']]\<close> the test is
  truthiness, and of \<^verbatim>\<open>None\<close>, \<^verbatim>\<open>False\<close>, \<^verbatim>\<open>True\<close> only \<^verbatim>\<open>True\<close> is truthy, so the
  list is \<open>healthy_servers\<close>.
\<close>

definition LoadBalancer_cycle :: "config \<Rightarrow> response \<Rightarrow> nat \<Rightarrow> state \<Rightarrow> error + state" where
  "LoadBalancer_cycle cfg resp rnd s =
     (if algorithm cfg = ''random'' then random_healthy_server cfg rnd s
      else
        (case turn_data s of
           None \<Rightarrow> Inl AttributeError
         | Some td \<Rightarrow>
             if healthy_servers td \<noteq> [] then
               (if length (healthy_servers td) = 1 then
                  Inr (s\<lparr>turn_server := Some (concat (healthy_servers td))\<rparr>)
                else
                  (case get_prometheus_metrics resp of
                     Inl e \<Rightarrow> Inl e
                   | Inr (ReturnedList query_result) \<Rightarrow>
                       if query_result \<noteq> [] then
                         (case process_metrics cfg query_result of
                            Inl e \<Rightarrow> Inl e
                          | Inr metrics \<Rightarrow>
                              if metrics \<noteq> [] then select_server rnd metrics s
                              else random_healthy_server cfg rnd s)
                       else random_healthy_server cfg rnd s
                   | Inr _ \<Rightarrow> random_healthy_server cfg rnd s))
             else random_server cfg rnd s))"

section \<open>The two threads together\<close>

text \<open>
  The program after \<^verbatim>\<open>HealthCheck.run\<close> has built its table: \<^verbatim>\<open>turn_server\<close> is still
  \<^verbatim>\<open>None\<close>.
\<close>

definition initial_state :: "config \<Rightarrow> state" where
  "initial_state cfg = \<lparr>turn_server = None, turn_data = Some (HealthCheck_init cfg)\<rparr>"

text \<open>
  The steps of the two threads, each taken as a whole: a probe result processed by the
  health-check thread, or one pass of the load-balancer loop. A pass that finds the wait
  condition true writes nothing. An exception ends the thread it is raised in, and
  \<^verbatim>\<open>check_threads\<close> then ends the process: \<open>exec\<close> stops at the first error.
\<close>

datatype event = Probe string bool nat | Select response nat

definition step :: "config \<Rightarrow> event \<Rightarrow> state \<Rightarrow> error + state" where
  "step cfg ev s =
     (case ev of
        Probe server passed rnd \<Rightarrow> process_health_check cfg server passed rnd s
      | Select resp rnd \<Rightarrow>
          if initial_check_pending s then Inr s else LoadBalancer_cycle cfg resp rnd s)"

fun exec :: "config \<Rightarrow> event list \<Rightarrow> state \<Rightarrow> error + state" where
  "exec cfg [] s = Inr s"
| "exec cfg (ev # evs) s =
     (case step cfg ev s of
        Inl e \<Rightarrow> Inl e
      | Inr s' \<Rightarrow> exec cfg evs s')"

section \<open>Readings of the counter invariant\<close>

text \<open>
  The invariant of the data model as two equivalences (\<open>counter_matches_status\<close>), and
  its two forward implications alone (\<open>counter_implies_status\<close>).
\<close>

definition counter_matches_status :: "server_data \<Rightarrow> bool" where
  "counter_matches_status d =
     (((failed_checks d = Some 0) = (healthy d = Some True)) \<and>
      ((failed_checks d = Some (success_th d)) = (healthy d = Some False)))"

definition counter_implies_status :: "server_data \<Rightarrow> bool" where
  "counter_implies_status d =
     ((failed_checks d = Some 0 \<longrightarrow> healthy d = Some True) \<and>
      (failed_checks d = Some (success_th d) \<longrightarrow> healthy d = Some False))"

section \<open>Invariants of the running program\<close>

text \<open>
  \<open>entry_ok N d\<close>: the entry is as \<^verbatim>\<open>HealthCheck.run\<close> built it or as a probe left it.
  \<open>state_ok cfg s\<close>: the table has the registry as its keys and sound entries, and an
  active endpoint, once set, is a registry member and no status is unknown any more.
\<close>

definition entry_ok :: "int \<Rightarrow> server_data \<Rightarrow> bool" where
  "entry_ok N d =
     (initial d = 0 \<and> success_th d = N \<and>
      (case healthy d of
         None \<Rightarrow> failed_checks d = None
       | Some h \<Rightarrow> (case failed_checks d of None \<Rightarrow> False | Some c \<Rightarrow> 0 \<le> c \<and> c \<le> N)))"

definition state_ok :: "config \<Rightarrow> state \<Rightarrow> bool" where
  "state_ok cfg s =
     (case turn_data s of
        None \<Rightarrow> False
      | Some td \<Rightarrow>
          fst ` set td = set (address cfg) \<and>
          (\<forall>d \<in> set (dict_values td). entry_ok (successThreshold cfg) d) \<and>
          (case turn_server s of
             None \<Rightarrow> True
           | Some a \<Rightarrow> a \<in> set (address cfg) \<and> \<not> initial_check_pending s))"

section \<open>Readers of a metrics series\<close>

text \<open>
  The endpoint a series is filed under by \<^verbatim>\<open>process_metrics\<close>
  (\<^verbatim>\<open>server_metric['metric'][metric_label]\<close>; \<open>None\<close> where the function raises), its
  sample list (\<^verbatim>\<open>lines_list\<close>), and the test that keeps it
  (\<^verbatim>\<open>not len(lines_list) < durationMinutes\<close>).
\<close>

definition series_server :: "config \<Rightarrow> series \<Rightarrow> string option" where
  "series_server cfg server_metric =
     (case find_label (address cfg) (dict_items (metric server_metric)) of
        None \<Rightarrow> None
      | Some metric_label \<Rightarrow>
          if metric_label = [] then None else map_of (metric server_metric) metric_label)"

definition samples :: "series \<Rightarrow> pyfloat list" where
  "samples server_metric = map snd (series_values server_metric)"

definition enough_samples :: "config \<Rightarrow> series \<Rightarrow> bool" where
  "enough_samples cfg server_metric =
     (\<not> int (length (samples server_metric)) < durationMinutes cfg)"

text \<open>
  The mean \<open>mean\<close> returns on a non-empty list of finite floats: the exact mean, rounded
  once.
\<close>

definition float_mean :: "pyfloat list \<Rightarrow> rat" where
  "float_mean data_points = round_double (avg (finite_values data_points))"

section \<open>Random choice and the fallback selections\<close>

lemma choice_mem: "xs \<noteq> [] \<Longrightarrow> \<exists>x \<in> set xs. choice rnd xs = Inr x"
  by (simp add: choice_def)

lemma choice_Inr_mem: "choice rnd xs = Inr x \<Longrightarrow> x \<in> set xs"
  by (auto simp: choice_def split: if_splits)

lemma random_server_total:
  "address cfg \<noteq> [] \<Longrightarrow> \<exists>a \<in> set (address cfg). random_server cfg rnd s = Inr (s\<lparr>turn_server := Some a\<rparr>)"
  using choice_mem [of "address cfg" rnd] by (auto simp: random_server_def)

lemma random_healthy_server_healthy:
  "turn_data s = Some td \<Longrightarrow> healthy_servers td \<noteq> [] \<Longrightarrow>
   \<exists>a \<in> set (healthy_servers td). random_healthy_server cfg rnd s = Inr (s\<lparr>turn_server := Some a\<rparr>)"
  using choice_mem [of "healthy_servers td" rnd] by (auto simp: random_healthy_server_def)

lemma random_healthy_server_none:
  "turn_data s = Some td \<Longrightarrow> healthy_servers td = [] \<Longrightarrow>
   random_healthy_server cfg rnd s = random_server cfg rnd s"
  by (simp add: random_healthy_server_def)

lemma random_healthy_server_total:
  assumes "turn_data s = Some td" "address cfg \<noteq> []"
  shows "\<exists>a. random_healthy_server cfg rnd s = Inr (s\<lparr>turn_server := Some a\<rparr>)"
proof (cases "healthy_servers td = []")
  case True
  then show ?thesis
    using random_server_total [OF assms(2), of rnd s] assms(1)
    by (auto simp: random_healthy_server_none)
next
  case False
  then show ?thesis
    using random_healthy_server_healthy [OF assms(1), of cfg rnd] by auto
qed

lemma check_current_server_total:
  assumes "turn_data s = Some td" "address cfg \<noteq> []"
  shows "\<exists>s'. check_current_server cfg rnd s = Inr s' \<and> turn_data s' = Some td"
proof -
  obtain a where a: "random_healthy_server cfg rnd s = Inr (s\<lparr>turn_server := Some a\<rparr>)"
    using random_healthy_server_total [OF assms] by blast
  show ?thesis
    unfolding check_current_server_def using assms(1) a
    by (simp split: option.splits)
qed

lemma process_health_check_total:
  assumes "turn_data s = Some td" "map_of td server = Some d"
    and "update_failed_checks passed d = Inr d1" "address cfg \<noteq> []"
  shows "\<exists>s'. process_health_check cfg server passed rnd s = Inr s' \<and>
           turn_data s' = Some (AList.update server (update_healthy d1) td)"
proof -
  let ?s1 = "s\<lparr>turn_data := Some (AList.update server (update_healthy d1) td)\<rparr>"
  have "turn_data ?s1 = Some (AList.update server (update_healthy d1) td)" by simp
  from check_current_server_total [OF this assms(4), of rnd]
  show ?thesis
    using assms(1-3) by (simp add: process_health_check_def)
qed

lemma process_health_check_Inr:
  assumes "process_health_check cfg server passed rnd s = Inr s'"
  shows "\<exists>td d d1. turn_data s = Some td \<and> map_of td server = Some d \<and>
           update_failed_checks passed d = Inr d1 \<and>
           turn_data s' = Some (AList.update server (update_healthy d1) td)"
proof -
  have ccs: "\<And>t t'. check_current_server cfg rnd t = Inr t' \<Longrightarrow> turn_data t' = turn_data t"
    by (auto simp: check_current_server_def random_healthy_server_def random_server_def
        split: option.splits if_splits sum.splits)
  show ?thesis
    using assms ccs
    by (fastforce simp: process_health_check_def split: option.splits sum.splits)
qed

section \<open>Hysteresis of one endpoint\<close>

lemma process_health_check_entry:
  assumes "entry s server = Some d" "update_entry passed d = Inr d'" "address cfg \<noteq> []"
  shows "\<exists>s'. process_health_check cfg server passed rnd s = Inr s' \<and> entry s' server = Some d'"
proof -
  from assms(1) obtain td where td: "turn_data s = Some td" "map_of td server = Some d"
    by (auto simp: entry_def split: option.splits)
  from assms(2) obtain d1 where d1: "update_failed_checks passed d = Inr d1" "d' = update_healthy d1"
    by (auto simp: update_entry_def split: sum.splits)
  from process_health_check_total [OF td d1(1) assms(3), of rnd]
  show ?thesis using d1(2) by (auto simp: entry_def update_conv')
qed

lemma after_probes_Nil: "after_probes cfg server [] s = entry s server"
  by (simp add: after_probes_def)

lemma after_probes_Cons:
  assumes "entry s server = Some d" "update_entry passed d = Inr d'" "address cfg \<noteq> []"
  shows "\<exists>s'. entry s' server = Some d' \<and>
           after_probes cfg server ((passed, rnd) # ps) s = after_probes cfg server ps s'"
  using process_health_check_entry [OF assms, of rnd]
  by (auto simp: after_probes_def)

lemma probes_append:
  "probes cfg server (xs @ ys) s =
     (case probes cfg server xs s of Inl e \<Rightarrow> Inl e | Inr s' \<Rightarrow> probes cfg server ys s')"
  by (induction xs arbitrary: s) (auto split: sum.splits)

lemma after_probes_append:
  assumes "probes cfg server xs s = Inr s'"
  shows "after_probes cfg server (xs @ ys) s = after_probes cfg server ys s'"
  using assms by (simp add: after_probes_def probes_append)

lemma fail_step:
  assumes "initial d = 0" "0 < success_th d" "healthy d = Some True"
    and "failed_checks d = Some c" "0 \<le> c" "c < success_th d"
  shows "update_entry False d =
           Inr (d\<lparr>failed_checks := Some (c + 1), healthy := Some (c + 1 < success_th d)\<rparr>)"
  using assms by (cases d) (auto simp: update_entry_def update_failed_checks_def update_healthy_def)

lemma pass_step:
  assumes "initial d = 0" "0 < success_th d" "healthy d = Some False"
    and "failed_checks d = Some c" "0 < c" "c \<le> success_th d"
  shows "update_entry True d =
           Inr (d\<lparr>failed_checks := Some (c - 1), healthy := Some (c - 1 = 0)\<rparr>)"
  using assms by (cases d) (auto simp: update_entry_def update_failed_checks_def update_healthy_def)

lemma pass_reset:
  assumes "initial d = 0" "0 < success_th d" "healthy d = Some True"
    and "failed_checks d = Some c" "0 \<le> c" "c < success_th d"
  shows "update_entry True d = Inr (d\<lparr>failed_checks := Some 0\<rparr>)"
  using assms by (cases d) (auto simp: update_entry_def update_failed_checks_def update_healthy_def)

lemma fail_reset:
  assumes "initial d = 0" "0 < success_th d" "healthy d = Some False"
    and "failed_checks d = Some c" "0 < c" "c \<le> success_th d"
  shows "update_entry False d = Inr (d\<lparr>failed_checks := Some (success_th d)\<rparr>)"
  using assms by (cases d) (auto simp: update_entry_def update_failed_checks_def update_healthy_def)

lemma failures_run:
  assumes "address cfg \<noteq> []" "initial d = 0" "0 < success_th d" "\<forall>p \<in> set fs. \<not> fst p"
    and "entry s server = Some d" "healthy d = Some True" "failed_checks d = Some c"
    and "0 \<le> c" "c < success_th d" "c + int (length fs) \<le> success_th d"
  shows "\<exists>s'. probes cfg server fs s = Inr s' \<and>
           entry s' server = Some (d\<lparr>failed_checks := Some (c + int (length fs)),
                                      healthy := Some (c + int (length fs) < success_th d)\<rparr>)"
  using assms
proof (induction fs arbitrary: s d c)
  case Nil
  then show ?case by simp
next
  case (Cons p fs)
  obtain rnd where p: "p = (False, rnd)" using Cons.prems(4) by (cases p) auto
  let ?d1 = "d\<lparr>failed_checks := Some (c + 1), healthy := Some (c + 1 < success_th d)\<rparr>"
  have upd: "update_entry False d = Inr ?d1"
    using Cons.prems by (intro fail_step) auto
  from process_health_check_entry [OF Cons.prems(5) upd Cons.prems(1), of rnd]
  obtain s1 where s1: "process_health_check cfg server False rnd s = Inr s1"
    "entry s1 server = Some ?d1" by blast
  show ?case
  proof (cases fs)
    case Nil
    then show ?thesis using s1 p by simp
  next
    case (Cons q qs)
    then have lt: "c + 1 < success_th d" using Cons.prems(10) by simp
    have "\<exists>s'. probes cfg server fs s1 = Inr s' \<and>
           entry s' server = Some (?d1\<lparr>failed_checks := Some (c + 1 + int (length fs)),
                                      healthy := Some (c + 1 + int (length fs) < success_th ?d1)\<rparr>)"
      using Cons.prems lt s1(2) by (intro Cons.IH) auto
    then show ?thesis using s1(1) p by (simp add: algebra_simps)
  qed
qed

lemma successes_run:
  assumes "address cfg \<noteq> []" "initial d = 0" "0 < success_th d" "\<forall>p \<in> set ps. fst p"
    and "entry s server = Some d" "healthy d = Some False" "failed_checks d = Some c"
    and "0 < c" "c \<le> success_th d" "int (length ps) \<le> c"
  shows "\<exists>s'. probes cfg server ps s = Inr s' \<and>
           entry s' server = Some (d\<lparr>failed_checks := Some (c - int (length ps)),
                                      healthy := Some (c - int (length ps) = 0)\<rparr>)"
  using assms
proof (induction ps arbitrary: s d c)
  case Nil
  then show ?case by simp
next
  case (Cons p ps)
  obtain rnd where p: "p = (True, rnd)" using Cons.prems(4) by (cases p) auto
  let ?d1 = "d\<lparr>failed_checks := Some (c - 1), healthy := Some (c - 1 = 0)\<rparr>"
  have upd: "update_entry True d = Inr ?d1"
    using Cons.prems by (intro pass_step) auto
  from process_health_check_entry [OF Cons.prems(5) upd Cons.prems(1), of rnd]
  obtain s1 where s1: "process_health_check cfg server True rnd s = Inr s1"
    "entry s1 server = Some ?d1" by blast
  show ?case
  proof (cases ps)
    case Nil
    then show ?thesis using s1 p by simp
  next
    case (Cons q qs)
    then have lt: "0 < c - 1" using Cons.prems(10) by simp
    have "\<exists>s'. probes cfg server ps s1 = Inr s' \<and>
           entry s' server = Some (?d1\<lparr>failed_checks := Some (c - 1 - int (length ps)),
                                      healthy := Some (c - 1 - int (length ps) = 0)\<rparr>)"
      using Cons.prems lt s1(2) by (intro Cons.IH) auto
    then show ?thesis using s1(1) p by (simp add: algebra_simps)
  qed
qed

lemma after_probes_snoc:
  assumes "probes cfg server xs s = Inr s1" "entry s1 server = Some d1"
    and "update_entry passed d1 = Inr d2" "address cfg \<noteq> []"
  shows "after_probes cfg server (xs @ [(passed, rnd)]) s = Some d2"
proof -
  from process_health_check_entry [OF assms(2,3,4), of rnd]
  obtain s2 where "process_health_check cfg server passed rnd s1 = Inr s2" "entry s2 server = Some d2"
    by blast
  then show ?thesis
    using assms(1) by (simp add: after_probes_def probes_append)
qed

lemma from_healthy:
  assumes ne: "address cfg \<noteq> []" and e: "entry s server = Some d"
    and i: "initial d = 0" and n: "0 < success_th d"
    and h: "failed_checks d = Some 0" "healthy d = Some True"
    and fs: "\<forall>p \<in> set fs. \<not> fst p" "int (length fs) \<le> success_th d"
  shows "\<exists>s1. probes cfg server fs s = Inr s1 \<and>
           entry s1 server = Some (d\<lparr>failed_checks := Some (int (length fs)),
                     healthy := Some (int (length fs) < success_th d)\<rparr>)"
proof -
  have "(0::int) \<le> 0" "0 + int (length fs) \<le> success_th d" using fs(2) by simp_all
  from failures_run [OF ne i n fs(1) e h(2) h(1) this(1) n this(2)]
  show ?thesis by simp
qed

lemma from_unhealthy:
  assumes ne: "address cfg \<noteq> []" and e: "entry s server = Some d"
    and i: "initial d = 0" and n: "0 < success_th d"
    and h: "failed_checks d = Some (success_th d)" "healthy d = Some False"
    and ps: "\<forall>p \<in> set ps. fst p" "int (length ps) \<le> success_th d"
  shows "\<exists>s1. probes cfg server ps s = Inr s1 \<and>
           entry s1 server = Some (d\<lparr>failed_checks := Some (success_th d - int (length ps)),
                     healthy := Some (int (length ps) = success_th d)\<rparr>)"
proof -
  have eq: "(success_th d - int (length ps) = 0) = (int (length ps) = success_th d)" by auto
  have "success_th d \<le> success_th d" by simp
  from successes_run [OF ne i n ps(1) e h(2) h(1) n this ps(2)]
  show ?thesis unfolding eq .
qed

lemma from_healthy_reset:
  assumes ne: "address cfg \<noteq> []" and e: "entry s server = Some d"
    and i: "initial d = 0" and n: "0 < success_th d"
    and h: "failed_checks d = Some 0" "healthy d = Some True"
    and fs: "\<forall>p \<in> set fs. \<not> fst p" "int (length fs) < success_th d"
  shows "after_probes cfg server (fs @ [(True, rnd)]) s = Some d"
proof -
  let ?dk = "d\<lparr>failed_checks := Some (int (length fs)),
                healthy := Some (int (length fs) < success_th d)\<rparr>"
  have le: "int (length fs) \<le> success_th d" using fs(2) by simp
  from from_healthy [OF ne e i n h fs(1) le]
  obtain s1 where s1: "probes cfg server fs s = Inr s1" "entry s1 server = Some ?dk" by blast
  have "update_entry True ?dk = Inr (?dk\<lparr>failed_checks := Some 0\<rparr>)"
    by (rule pass_reset [where c = "int (length fs)"]) (use i n fs(2) in simp_all)
  moreover have "?dk\<lparr>failed_checks := Some 0\<rparr> = d" using h fs(2) by simp
  ultimately have "update_entry True ?dk = Inr d" by simp
  from after_probes_snoc [OF s1 this ne] show ?thesis .
qed

lemma from_unhealthy_reset:
  assumes ne: "address cfg \<noteq> []" and e: "entry s server = Some d"
    and i: "initial d = 0" and n: "0 < success_th d"
    and h: "failed_checks d = Some (success_th d)" "healthy d = Some False"
    and ps: "\<forall>p \<in> set ps. fst p" "int (length ps) < success_th d"
  shows "after_probes cfg server (ps @ [(False, rnd)]) s = Some d"
proof -
  let ?dk = "d\<lparr>failed_checks := Some (success_th d - int (length ps)),
                healthy := Some (int (length ps) = success_th d)\<rparr>"
  have le: "int (length ps) \<le> success_th d" using ps(2) by simp
  from from_unhealthy [OF ne e i n h ps(1) le]
  obtain s1 where s1: "probes cfg server ps s = Inr s1" "entry s1 server = Some ?dk" by blast
  have "update_entry False ?dk = Inr (?dk\<lparr>failed_checks := Some (success_th ?dk)\<rparr>)"
    by (rule fail_reset [where c = "success_th d - int (length ps)"]) (use i n ps(2) in simp_all)
  moreover have "?dk\<lparr>failed_checks := Some (success_th ?dk)\<rparr> = d" using h ps(2) by simp
  ultimately have "update_entry False ?dk = Inr d" by simp
  from after_probes_snoc [OF s1 this ne] show ?thesis .
qed

text \<open>
  C1. Hysteresis exactness. Take an endpoint of the registry whose entry \<open>d\<close> has
  \<open>initial = 0\<close> and a positive \<open>success_th = N\<close>. If it is Healthy with
  \<open>failed_checks = 0\<close>, a run of \<open>k \<le> N\<close> failed probes leaves \<open>failed_checks = k\<close> and
  the status Healthy as long as \<open>k < N\<close>, Unhealthy exactly at \<open>k = N\<close>; and \<open>k < N\<close>
  failures followed by one passed probe give back the entry \<open>d\<close> (Healthy, counter 0).
  Symmetrically, if it is Unhealthy with \<open>failed_checks = N\<close>, a run of \<open>k \<le> N\<close> passed
  probes leaves \<open>failed_checks = N - k\<close> and the status Unhealthy as long as \<open>k < N\<close>,
  Healthy exactly at \<open>k = N\<close>; and \<open>k < N\<close> passes followed by one failed probe give back
  \<open>d\<close> (Unhealthy, counter \<open>N\<close>). No run raises.
\<close>

theorem hysteresis_exact:
  assumes "server \<in> set (address cfg)" "entry s server = Some d"
    and "initial d = 0" "0 < success_th d"
  shows
    "(failed_checks d = Some 0 \<and> healthy d = Some True \<longrightarrow>
        (\<forall>fs. (\<forall>p \<in> set fs. \<not> fst p) \<and> int (length fs) \<le> success_th d \<longrightarrow>
           after_probes cfg server fs s =
             Some (d\<lparr>failed_checks := Some (int (length fs)),
                     healthy := Some (int (length fs) < success_th d)\<rparr>)
           \<and> (int (length fs) < success_th d \<longrightarrow>
                (\<forall>rnd. after_probes cfg server (fs @ [(True, rnd)]) s = Some d))))
     \<and> (failed_checks d = Some (success_th d) \<and> healthy d = Some False \<longrightarrow>
        (\<forall>ps. (\<forall>p \<in> set ps. fst p) \<and> int (length ps) \<le> success_th d \<longrightarrow>
           after_probes cfg server ps s =
             Some (d\<lparr>failed_checks := Some (success_th d - int (length ps)),
                     healthy := Some (int (length ps) = success_th d)\<rparr>)
           \<and> (int (length ps) < success_th d \<longrightarrow>
                (\<forall>rnd. after_probes cfg server (ps @ [(False, rnd)]) s = Some d))))"
proof -
  have ne: "address cfg \<noteq> []" using assms(1) by auto
  note a = ne assms(2,3,4)
  have A: "after_probes cfg server fs s =
             Some (d\<lparr>failed_checks := Some (int (length fs)),
                     healthy := Some (int (length fs) < success_th d)\<rparr>)"
    if "failed_checks d = Some 0" "healthy d = Some True"
      "\<forall>p \<in> set fs. \<not> fst p" "int (length fs) \<le> success_th d" for fs
    using from_healthy [OF a that] by (auto simp: after_probes_def)
  have B: "after_probes cfg server ps s =
             Some (d\<lparr>failed_checks := Some (success_th d - int (length ps)),
                     healthy := Some (int (length ps) = success_th d)\<rparr>)"
    if "failed_checks d = Some (success_th d)" "healthy d = Some False"
      "\<forall>p \<in> set ps. fst p" "int (length ps) \<le> success_th d" for ps
    using from_unhealthy [OF a that] by (auto simp: after_probes_def)
  show ?thesis
    using A B from_healthy_reset [OF a] from_unhealthy_reset [OF a] by blast
qed

theorem hysteresis_exact_witness:
  "after_probes \<lparr>address = [''t1''], successThreshold = 3, algorithm = ''prometheus'', durationMinutes = 5\<rparr>
     ''t1'' [(False, 0), (False, 1), (False, 2)]
     \<lparr>turn_server = None,
      turn_data = Some [(''t1'', \<lparr>initial = 0, success_th = 3, failed_checks = Some 0, healthy = Some True\<rparr>)]\<rparr>
   = Some \<lparr>initial = 0, success_th = 3, failed_checks = Some 3, healthy = Some False\<rparr>
   \<and> after_probes \<lparr>address = [''t1''], successThreshold = 3, algorithm = ''prometheus'', durationMinutes = 5\<rparr>
     ''t1'' ([(False, 0), (False, 1)] @ [(True, 2)])
     \<lparr>turn_server = None,
      turn_data = Some [(''t1'', \<lparr>initial = 0, success_th = 3, failed_checks = Some 0, healthy = Some True\<rparr>)]\<rparr>
   = Some \<lparr>initial = 0, success_th = 3, failed_checks = Some 0, healthy = Some True\<rparr>
   \<and> after_probes \<lparr>address = [''t1''], successThreshold = 3, algorithm = ''prometheus'', durationMinutes = 5\<rparr>
     ''t1'' [(True, 0), (True, 1), (True, 2)]
     \<lparr>turn_server = None,
      turn_data = Some [(''t1'', \<lparr>initial = 0, success_th = 3, failed_checks = Some 3, healthy = Some False\<rparr>)]\<rparr>
   = Some \<lparr>initial = 0, success_th = 3, failed_checks = Some 0, healthy = Some True\<rparr>
   \<and> after_probes \<lparr>address = [''t1''], successThreshold = 3, algorithm = ''prometheus'', durationMinutes = 5\<rparr>
     ''t1'' ([(True, 0), (True, 1)] @ [(False, 2)])
     \<lparr>turn_server = None,
      turn_data = Some [(''t1'', \<lparr>initial = 0, success_th = 3, failed_checks = Some 3, healthy = Some False\<rparr>)]\<rparr>
   = Some \<lparr>initial = 0, success_th = 3, failed_checks = Some 3, healthy = Some False\<rparr>"
proof -
  let ?cfg = "\<lparr>address = [''t1''], successThreshold = 3, algorithm = ''prometheus'', durationMinutes = 5\<rparr>"
  let ?h = "\<lparr>initial = 0, success_th = 3, failed_checks = Some 0, healthy = Some True\<rparr>"
  let ?u = "\<lparr>initial = 0, success_th = 3, failed_checks = Some 3, healthy = Some False\<rparr>"
  let ?sh = "\<lparr>turn_server = None, turn_data = Some [(''t1'', ?h)]\<rparr>"
  let ?su = "\<lparr>turn_server = None, turn_data = Some [(''t1'', ?u)]\<rparr>"
  have reg: "''t1'' \<in> set (address ?cfg)" by simp
  have eh: "entry ?sh ''t1'' = Some ?h" and eu: "entry ?su ''t1'' = Some ?u"
    by (simp_all add: entry_def)
  have ih: "initial ?h = 0" "0 < success_th ?h" and iu: "initial ?u = 0" "0 < success_th ?u"
    by simp_all
  note H = hysteresis_exact [OF reg eh ih, THEN conjunct1, rule_format]
  note U = hysteresis_exact [OF reg eu iu, THEN conjunct2, rule_format]
  have 1: "after_probes ?cfg ''t1'' [(False, 0), (False, 1), (False, 2)] ?sh = Some ?u"
    using H [of "[(False, 0), (False, 1), (False, 2)]", THEN conjunct1] by simp
  have 2: "after_probes ?cfg ''t1'' ([(False, 0), (False, 1)] @ [(True, 2)]) ?sh = Some ?h"
    using H [of "[(False, 0), (False, 1)]", THEN conjunct2, rule_format, of 2] by simp
  have 3: "after_probes ?cfg ''t1'' [(True, 0), (True, 1), (True, 2)] ?su = Some ?h"
    using U [of "[(True, 0), (True, 1), (True, 2)]", THEN conjunct1] by simp
  have 4: "after_probes ?cfg ''t1'' ([(True, 0), (True, 1)] @ [(False, 2)]) ?su = Some ?u"
    using U [of "[(True, 0), (True, 1)]", THEN conjunct2, rule_format, of 2] by simp
  from 1 2 3 4 show ?thesis by blast
qed

section \<open>Counter and status\<close>

lemma update_healthy_implies:
  "success_th d \<noteq> 0 \<Longrightarrow> counter_implies_status (update_healthy d)"
  by (simp add: counter_implies_status_def update_healthy_def)

lemma update_healthy_success_th: "success_th (update_healthy d) = success_th d"
  by (simp add: update_healthy_def)

lemma update_failed_checks_success_th:
  "update_failed_checks passed d = Inr d1 \<Longrightarrow> success_th d1 = success_th d"
  by (auto simp: update_failed_checks_def split: option.splits if_splits)

lemma update_entry_determined:
  "update_entry passed d = Inr d' \<Longrightarrow> healthy d' \<noteq> None"
  by (auto simp: update_entry_def update_failed_checks_def update_healthy_def
      split: option.splits if_splits)

lemma process_health_check_Inr_entry:
  assumes "process_health_check cfg server passed rnd s = Inr s'"
  shows "\<exists>d d'. entry s server = Some d \<and> update_entry passed d = Inr d' \<and> entry s' server = Some d'"
  using process_health_check_Inr [OF assms]
  by (auto simp: entry_def update_entry_def update_conv')

text \<open>
  C2 (as amended). After every call of \<^verbatim>\<open>process_health_check\<close> that returns, from any
  state, the status of the endpoint is determined, and for a non-zero \<open>success_th\<close> a
  counter of 0 implies Healthy and a counter of \<open>success_th\<close> implies Unhealthy. The
  converses are not part of it: between the two bounds the status is the one the
  endpoint had.
\<close>

theorem counter_boundary_implies_status:
  assumes "process_health_check cfg server passed rnd s = Inr s'"
  shows "\<exists>d. entry s' server = Some d \<and> healthy d \<noteq> None \<and>
           (success_th d \<noteq> 0 \<longrightarrow> counter_implies_status d)"
proof -
  from process_health_check_Inr_entry [OF assms]
  obtain d d' where d: "entry s server = Some d" "update_entry passed d = Inr d'"
    "entry s' server = Some d'" by blast
  from d(2) obtain d1 where d1: "update_failed_checks passed d = Inr d1" "d' = update_healthy d1"
    by (auto simp: update_entry_def split: sum.splits)
  have "success_th d' \<noteq> 0 \<longrightarrow> counter_implies_status d'"
    using update_healthy_implies [of d1] d1(2) by (simp add: update_healthy_success_th)
  with d(3) update_entry_determined [OF d(2)] show ?thesis by blast
qed

text \<open>
  C2 as stated fails: with \<open>successThreshold = 3\<close>, after one passed and one failed probe
  the endpoint is Healthy with \<open>failed_checks = 1\<close>, so ``Healthy implies counter 0'' is
  false.
\<close>

theorem counter_matches_status_counterexample:
  "after_probes \<lparr>address = [''t1''], successThreshold = 3, algorithm = ''prometheus'', durationMinutes = 5\<rparr>
     ''t1'' [(True, 0), (False, 0)]
     (initial_state \<lparr>address = [''t1''], successThreshold = 3, algorithm = ''prometheus'', durationMinutes = 5\<rparr>)
   = Some \<lparr>initial = 0, success_th = 3, failed_checks = Some 1, healthy = Some True\<rparr>
   \<and> \<not> counter_matches_status \<lparr>initial = 0, success_th = 3, failed_checks = Some 1, healthy = Some True\<rparr>"
  by (simp add: after_probes_def initial_state_def HealthCheck_init_def process_health_check_def
      update_failed_checks_def update_healthy_def check_current_server_def entry_def
      counter_matches_status_def)

theorem counter_boundary_implies_status_witness:
  "process_health_check \<lparr>address = [''t1''], successThreshold = 3, algorithm = ''prometheus'', durationMinutes = 5\<rparr>
     ''t1'' False 0
     \<lparr>turn_server = None,
      turn_data = Some [(''t1'', \<lparr>initial = 0, success_th = 3, failed_checks = Some 2, healthy = Some True\<rparr>)]\<rparr>
   = Inr \<lparr>turn_server = None,
      turn_data = Some [(''t1'', \<lparr>initial = 0, success_th = 3, failed_checks = Some 3, healthy = Some False\<rparr>)]\<rparr>
   \<and> counter_implies_status \<lparr>initial = 0, success_th = 3, failed_checks = Some 3, healthy = Some False\<rparr>"
proof -
  let ?cfg = "\<lparr>address = [''t1''], successThreshold = 3, algorithm = ''prometheus'', durationMinutes = 5\<rparr>"
  let ?s = "\<lparr>turn_server = None,
      turn_data = Some [(''t1'', \<lparr>initial = 0, success_th = 3, failed_checks = Some 2, healthy = Some True\<rparr>)]\<rparr>"
  let ?d' = "\<lparr>initial = 0, success_th = 3, failed_checks = Some 3, healthy = Some False\<rparr>"
  let ?s' = "\<lparr>turn_server = None, turn_data = Some [(''t1'', ?d')]\<rparr>"
  have run: "process_health_check ?cfg ''t1'' False 0 ?s = Inr ?s'"
    by (simp add: process_health_check_def update_failed_checks_def update_healthy_def
        check_current_server_def)
  from counter_boundary_implies_status [OF run]
  have "counter_implies_status ?d'" by (simp add: entry_def)
  with run show ?thesis by simp
qed

section \<open>Facts about the table and its entries\<close>

lemma update_entry_ok:
  assumes "entry_ok N d" "0 < N"
  shows "case update_entry passed d of
           Inl e \<Rightarrow> False
         | Inr d' \<Rightarrow> entry_ok N d' \<and> healthy d' \<noteq> None"
  using assms
  by (auto simp: entry_ok_def update_entry_def update_failed_checks_def update_healthy_def
      split: option.splits)

lemma values_update_subset:
  "set (map snd (AList.update k v al)) \<subseteq> insert v (set (map snd al))"
  by (induction al) auto

lemma dict_values_update:
  "set (dict_values (AList.update k v td)) \<subseteq> insert v (set (dict_values td))"
  unfolding dict_values_def dict_items_def clearjunk_update by (rule values_update_subset)

lemma map_of_dict_values:
  "map_of td k = Some d \<Longrightarrow> d \<in> set (dict_values td)"
proof -
  assume "map_of td k = Some d"
  then have "map_of (AList.clearjunk td) k = Some d" by (simp add: map_of_clearjunk)
  then have "(k, d) \<in> set (AList.clearjunk td)" by (rule map_of_SomeD)
  then show ?thesis unfolding dict_values_def dict_items_def by force
qed

lemma dict_items_map_of:
  "(k, d) \<in> set (dict_items td) \<Longrightarrow> map_of td k = Some d"
proof -
  assume "(k, d) \<in> set (dict_items td)"
  then have "map_of (AList.clearjunk td) k = Some d"
    unfolding dict_items_def by (intro map_of_is_SomeI) simp_all
  then show ?thesis by (simp add: map_of_clearjunk)
qed

lemma set_keys_filter:
  "set (map fst (filter (\<lambda>(k, d). P d) xs)) = {k. \<exists>d. (k, d) \<in> set xs \<and> P d}"
  by (induction xs) auto

lemma healthy_servers_set:
  "set (healthy_servers td) = {k. \<exists>d. (k, d) \<in> set (dict_items td) \<and> healthy d = Some True}"
  unfolding healthy_servers_def by (rule set_keys_filter)

lemma dict_items_iff: "(k, d) \<in> set (dict_items td) \<longleftrightarrow> map_of td k = Some d"
proof
  assume "(k, d) \<in> set (dict_items td)"
  then show "map_of td k = Some d" by (rule dict_items_map_of)
next
  assume "map_of td k = Some d"
  then have "map_of (AList.clearjunk td) k = Some d" by (simp add: map_of_clearjunk)
  then show "(k, d) \<in> set (dict_items td)" unfolding dict_items_def by (rule map_of_SomeD)
qed

lemma healthy_servers_entry:
  "a \<in> set (healthy_servers td) \<longleftrightarrow> (\<exists>d. map_of td a = Some d \<and> healthy d = Some True)"
  by (simp add: healthy_servers_set dict_items_iff)

lemma healthy_servers_keys: "set (healthy_servers td) \<subseteq> fst ` set td"
proof
  fix a assume "a \<in> set (healthy_servers td)"
  then obtain d where "map_of td a = Some d" unfolding healthy_servers_entry by blast
  then have "(a, d) \<in> set td" by (rule map_of_SomeD)
  then show "a \<in> fst ` set td" by (rule image_eqI [rotated]) simp
qed

lemma random_server_Inr:
  "random_server cfg rnd s = Inr s' \<Longrightarrow>
   \<exists>a \<in> set (address cfg). s' = s\<lparr>turn_server := Some a\<rparr>"
  by (auto simp: random_server_def split: sum.splits dest: choice_Inr_mem)

lemma random_healthy_server_Inr:
  assumes "random_healthy_server cfg rnd s = Inr s'"
  shows "\<exists>td a. turn_data s = Some td \<and> s' = s\<lparr>turn_server := Some a\<rparr> \<and>
           (if healthy_servers td \<noteq> [] then a \<in> set (healthy_servers td) else a \<in> set (address cfg))"
proof -
  from assms obtain td where td: "turn_data s = Some td"
    by (auto simp: random_healthy_server_def split: option.splits)
  show ?thesis
  proof (cases "healthy_servers td = []")
    case True
    then have "random_server cfg rnd s = Inr s'"
      using assms td by (simp add: random_healthy_server_def)
    from random_server_Inr [OF this] show ?thesis using td True by auto
  next
    case False
    then obtain a where a: "a \<in> set (healthy_servers td)" "choice rnd (healthy_servers td) = Inr a"
      using choice_mem [of "healthy_servers td" rnd] by blast
    then have "s' = s\<lparr>turn_server := Some a\<rparr>"
      using assms td False by (simp add: random_healthy_server_def)
    then show ?thesis using td False a(1) by auto
  qed
qed

lemma check_current_server_Inr:
  assumes "check_current_server cfg rnd s = Inr s'"
  shows "s' = s \<or> (turn_server s \<noteq> None \<and> random_healthy_server cfg rnd s = Inr s')"
  using assms
  by (auto simp: check_current_server_def split: option.splits if_splits)

section \<open>Processing the metrics\<close>

lemma find_label_Some:
  "find_label reg xs = Some l \<Longrightarrow> \<exists>v. (l, v) \<in> set xs \<and> v \<in> set reg"
proof (induction reg xs rule: find_label.induct)
  case (1 reg)
  then show ?case by simp
next
  case (2 reg label v rest)
  show ?case
  proof (cases "v \<in> set reg")
    case True
    with 2 show ?thesis by auto
  next
    case False
    with 2 obtain w where "(l, w) \<in> set rest" "w \<in> set reg" by auto
    then show ?thesis by auto
  qed
qed

lemma find_label_None:
  "find_label reg xs = None \<longleftrightarrow> (\<forall>v \<in> set (map snd xs). v \<notin> set reg)"
proof (induction reg xs rule: find_label.induct)
  case (1 reg)
  then show ?case by simp
next
  case (2 reg label v rest)
  then show ?case by simp
qed

lemma find_label_lookup:
  assumes "find_label reg (dict_items m) = Some l"
  shows "\<exists>v. map_of m l = Some v \<and> v \<in> set reg"
proof -
  from find_label_Some [OF assms] obtain v where v: "(l, v) \<in> set (dict_items m)" "v \<in> set reg"
    by blast
  from dict_items_map_of [OF v(1)] v(2) show ?thesis by simp
qed

lemma series_server_registry:
  assumes "series_server cfg sm = Some a"
  shows "a \<in> set (address cfg)"
proof (cases "find_label (address cfg) (dict_items (metric sm))")
  case None
  then show ?thesis using assms by (simp add: series_server_def)
next
  case (Some l)
  from find_label_lookup [OF Some] obtain v where v: "map_of (metric sm) l = Some v" "v \<in> set (address cfg)"
    by blast
  have "l \<noteq> []" using assms Some by (auto simp: series_server_def split: if_splits)
  then have "a = v" using assms Some v(1) by (simp add: series_server_def)
  then show ?thesis using v(2) by simp
qed

lemma process_series_eq:
  "process_series cfg sm vd =
     (case series_server cfg sm of
        None \<Rightarrow> Inl ConfigException
      | Some a \<Rightarrow> if enough_samples cfg sm then Inr (AList.update a (samples sm) vd) else Inr vd)"
proof (cases "find_label (address cfg) (dict_items (metric sm))")
  case None
  then show ?thesis by (simp add: process_series_def series_server_def)
next
  case (Some l)
  from find_label_lookup [OF Some] obtain v where v: "map_of (metric sm) l = Some v" by blast
  show ?thesis
    using Some v
    by (simp add: process_series_def series_server_def enough_samples_def samples_def)
qed

lemma set_update_subset: "set (AList.update k v al) \<subseteq> insert (k, v) (set al)"
  by (induction al) auto

lemma process_metrics_loop_raises:
  "\<exists>sm \<in> set qr. series_server cfg sm = None \<Longrightarrow>
   process_metrics_loop cfg qr vd = Inl ConfigException"
proof (induction qr arbitrary: vd)
  case Nil
  then show ?case by simp
next
  case (Cons sm qr)
  show ?case
  proof (cases "series_server cfg sm")
    case None
    then show ?thesis by (simp add: process_series_eq)
  next
    case (Some a)
    with Cons.prems have "\<exists>sm \<in> set qr. series_server cfg sm = None" by auto
    from Cons.IH [OF this] show ?thesis using Some by (simp add: process_series_eq)
  qed
qed

lemma process_metrics_loop_total:
  "\<forall>sm \<in> set qr. series_server cfg sm \<noteq> None \<Longrightarrow>
   \<exists>d. process_metrics_loop cfg qr vd = Inr d"
proof (induction qr arbitrary: vd)
  case Nil
  then show ?case by simp
next
  case (Cons sm qr)
  then obtain a where a: "series_server cfg sm = Some a" by auto
  from Cons.prems have rest: "\<forall>sm \<in> set qr. series_server cfg sm \<noteq> None" by simp
  show ?case
    using a Cons.IH [OF rest] by (simp add: process_series_eq)
qed

lemma process_metrics_loop_entries:
  assumes "process_metrics_loop cfg qr vd = Inr d" "(k, v) \<in> set d"
  shows "(k, v) \<in> set vd \<or>
         (\<exists>sm \<in> set qr. series_server cfg sm = Some k \<and> enough_samples cfg sm \<and> v = samples sm)"
  using assms
proof (induction qr arbitrary: vd)
  case Nil
  then show ?case by simp
next
  case (Cons sm qr)
  from Cons.prems(1) obtain a where a: "series_server cfg sm = Some a"
    by (cases "series_server cfg sm") (simp_all add: process_series_eq)
  show ?case
  proof (cases "enough_samples cfg sm")
    case True
    with Cons.prems(1) a
    have "process_metrics_loop cfg qr (AList.update a (samples sm) vd) = Inr d"
      by (simp add: process_series_eq)
    from Cons.IH [OF this Cons.prems(2)]
    show ?thesis
    proof
      assume "(k, v) \<in> set (AList.update a (samples sm) vd)"
      then have "(k, v) = (a, samples sm) \<or> (k, v) \<in> set vd"
        using set_update_subset [of a "samples sm" vd] by auto
      then show ?thesis using a True by auto
    next
      assume "\<exists>sm \<in> set qr. series_server cfg sm = Some k \<and> enough_samples cfg sm \<and> v = samples sm"
      then show ?thesis by auto
    qed
  next
    case False
    with Cons.prems(1) a have "process_metrics_loop cfg qr vd = Inr d"
      by (simp add: process_series_eq)
    from Cons.IH [OF this Cons.prems(2)] show ?thesis by auto
  qed
qed

lemma process_metrics_loop_append:
  "process_metrics_loop cfg (xs @ ys) vd =
     (case process_metrics_loop cfg xs vd of
        Inl e \<Rightarrow> Inl e
      | Inr vd' \<Rightarrow> process_metrics_loop cfg ys vd')"
  by (induction xs arbitrary: vd) (simp_all split: sum.splits)

lemma process_metrics_loop_preserve:
  assumes "process_metrics_loop cfg qr vd = Inr d"
    and "\<forall>sm \<in> set qr. series_server cfg sm = Some k \<longrightarrow> \<not> enough_samples cfg sm"
  shows "map_of d k = map_of vd k"
  using assms
proof (induction qr arbitrary: vd)
  case Nil
  then show ?case by simp
next
  case (Cons sm qr)
  from Cons.prems(1) obtain a where a: "series_server cfg sm = Some a"
    by (cases "series_server cfg sm") (simp_all add: process_series_eq)
  from Cons.prems(2) have rest: "\<forall>sm \<in> set qr. series_server cfg sm = Some k \<longrightarrow> \<not> enough_samples cfg sm"
    by simp
  show ?case
  proof (cases "enough_samples cfg sm")
    case True
    with Cons.prems(2) a have ne: "a \<noteq> k" by auto
    from True Cons.prems(1) a
    have "process_metrics_loop cfg qr (AList.update a (samples sm) vd) = Inr d"
      by (simp add: process_series_eq)
    from Cons.IH [OF this rest] ne show ?thesis by (simp add: update_conv')
  next
    case False
    with Cons.prems(1) a have "process_metrics_loop cfg qr vd = Inr d"
      by (simp add: process_series_eq)
    from Cons.IH [OF this rest] show ?thesis .
  qed
qed

lemma process_metrics_loop_last:
  assumes "process_metrics_loop cfg (pre @ sm # post) vd = Inr d"
    and "series_server cfg sm = Some k" "enough_samples cfg sm"
    and "\<forall>sm' \<in> set post. series_server cfg sm' = Some k \<longrightarrow> \<not> enough_samples cfg sm'"
  shows "map_of d k = Some (samples sm)"
proof -
  from assms(1) obtain vd1 where vd1: "process_metrics_loop cfg pre vd = Inr vd1"
    "process_metrics_loop cfg (sm # post) vd1 = Inr d"
    by (auto simp: process_metrics_loop_append split: sum.splits)
  from vd1(2) assms(2,3)
  have "process_metrics_loop cfg post (AList.update k (samples sm) vd1) = Inr d"
    by (simp add: process_series_eq)
  from process_metrics_loop_preserve [OF this assms(4)]
  show ?thesis by (simp add: update_conv')
qed

section \<open>Selecting by the minimum mean\<close>

lemma mean_all_mem:
  "mean_all xs = Inr ms \<Longrightarrow> (a, m) \<in> set ms \<Longrightarrow>
   \<exists>pts. (a, pts) \<in> set xs \<and> mean pts = Inr m"
proof (induction xs arbitrary: ms)
  case Nil
  then show ?case by simp
next
  case (Cons p xs)
  obtain k pts where p: "p = (k, pts)" by (cases p)
  from Cons.prems(1) p obtain m0 ms' where ms': "mean pts = Inr m0" "mean_all xs = Inr ms'"
    "ms = (k, m0) # ms'"
    by (auto split: sum.splits)
  from Cons.prems(2) ms'(3) consider "(a, m) = (k, m0)" | "(a, m) \<in> set ms'" by auto
  then show ?case
  proof cases
    case 1
    with ms'(1) p show ?thesis by auto
  next
    case 2
    from Cons.IH [OF ms'(2) 2] show ?thesis by auto
  qed
qed

lemma mean_Inr_nonempty: "mean pts = Inr m \<Longrightarrow> pts \<noteq> []"
  by (auto simp: mean_def split: if_splits)

lemma matches_keys:
  "set (map fst (filter (\<lambda>(server, mean_data). float_eq mean_data mv) ms)) =
     {k. \<exists>m. (k, m) \<in> set ms \<and> float_eq m mv}"
  by (induction ms) auto

lemma select_server_Inr:
  assumes "select_server rnd metrics s = Inr s'"
  shows "\<exists>a pts. (a, pts) \<in> set (dict_items metrics) \<and> pts \<noteq> [] \<and>
           s' = s\<lparr>turn_server := Some a\<rparr>"
proof -
  from assms obtain ms where ms: "mean_all (dict_items metrics) = Inr ms"
    by (auto simp: select_server_def split: sum.splits)
  from assms ms obtain mv where mv: "py_min (map snd ms) = Inr mv"
    by (auto simp: select_server_def split: sum.splits)
  from assms ms mv obtain a where a:
    "choice rnd (map fst (filter (\<lambda>(server, mean_data). float_eq mean_data mv) ms)) = Inr a"
    "s' = s\<lparr>turn_server := Some a\<rparr>"
    by (auto simp: select_server_def split: sum.splits)
  from choice_Inr_mem [OF a(1)] obtain m where "(a, m) \<in> set ms"
    unfolding matches_keys by blast
  from mean_all_mem [OF ms this] obtain pts where pts: "(a, pts) \<in> set (dict_items metrics)"
    "mean pts = Inr m" by blast
  from mean_Inr_nonempty [OF pts(2)] pts(1) a(2) show ?thesis by blast
qed

lemma special_total_finite: "list_all is_finite pts \<Longrightarrow> special_total pts = None"
proof -
  assume "list_all is_finite pts"
  then have "filter (\<lambda>x. \<not> is_finite x) pts = []"
    by (simp add: list_all_iff filter_empty_conv)
  then show ?thesis by (simp add: special_total_def)
qed

lemma mean_finite:
  "pts \<noteq> [] \<Longrightarrow> list_all is_finite pts \<Longrightarrow> mean pts = Inr (Finite (float_mean pts))"
  by (simp add: mean_def special_total_finite float_mean_def)

lemma mean_all_finite:
  "\<forall>pts \<in> set (map snd xs). pts \<noteq> [] \<and> list_all is_finite pts \<Longrightarrow>
   mean_all xs = Inr (map (\<lambda>p. (fst p, Finite (float_mean (snd p)))) xs)"
proof (induction xs)
  case Nil
  then show ?case by simp
next
  case (Cons p xs)
  obtain k pts where p: "p = (k, pts)" by (cases p)
  with Cons.prems have "pts \<noteq> []" "list_all is_finite pts" by simp_all
  then have m: "mean pts = Inr (Finite (float_mean pts))" by (rule mean_finite)
  from Cons.prems have "\<forall>pts \<in> set (map snd xs). pts \<noteq> [] \<and> list_all is_finite pts" by simp
  from Cons.IH [OF this] m p show ?case by simp
qed

lemma fold_min_finite:
  "fold (\<lambda>item kept. if float_lt item kept then item else kept) (map Finite rs) (Finite x) =
     Finite (fold min rs x)"
proof (induction rs arbitrary: x)
  case Nil
  then show ?case by simp
next
  case (Cons r rs)
  have "(if float_lt (Finite r) (Finite x) then Finite r else Finite x) = Finite (min r x)"
    by (simp add: min_def)
  with Cons.IH [of "min r x"] show ?case by simp
qed

lemma py_min_finite:
  assumes "rs \<noteq> []"
  shows "py_min (map Finite rs) = Inr (Finite (Min (set rs)))"
proof -
  from assms obtain x rest where rs: "rs = x # rest" by (cases rs) auto
  have "fold min rest x = Min (set (x # rest))" by (rule Min.set_eq_fold [symmetric])
  then show ?thesis unfolding rs by (simp add: py_min_def fold_min_finite)
qed

lemma select_server_finite:
  assumes "metrics \<noteq> []"
    and "\<forall>pts \<in> set (dict_values metrics). pts \<noteq> [] \<and> list_all is_finite pts"
  shows "\<exists>a pts. (a, pts) \<in> set (dict_items metrics) \<and>
           select_server rnd metrics s = Inr (s\<lparr>turn_server := Some a\<rparr>) \<and>
           (\<forall>q \<in> set (dict_values metrics). float_mean pts \<le> float_mean q)"
proof -
  let ?items = "dict_items metrics"
  let ?rs = "map (\<lambda>p. float_mean (snd p)) ?items"
  let ?ms = "map (\<lambda>p. (fst p, Finite (float_mean (snd p)))) ?items"
  let ?m = "Min (set ?rs)"
  have items_ne: "?items \<noteq> []"
    using assms(1) unfolding dict_items_def by (cases metrics) auto
  have ms: "mean_all ?items = Inr ?ms"
    using assms(2) unfolding dict_values_def by (rule mean_all_finite)
  have snd_ms: "map snd ?ms = map Finite ?rs" by simp
  have rs_ne: "?rs \<noteq> []" using items_ne by simp
  have mv: "py_min (map snd ?ms) = Inr (Finite ?m)"
    unfolding snd_ms using rs_ne by (rule py_min_finite)
  let ?keys = "map fst (filter (\<lambda>(server, mean_data). float_eq mean_data (Finite ?m)) ?ms)"
  have keys: "set ?keys = {k. \<exists>p \<in> set ?items. fst p = k \<and> float_mean (snd p) = ?m}"
    unfolding matches_keys by force
  have "?m \<in> set ?rs" using rs_ne by (intro Min_in) simp_all
  then obtain p0 where "p0 \<in> set ?items" "float_mean (snd p0) = ?m" by auto
  then have mem: "fst p0 \<in> set ?keys" unfolding keys by blast
  have "?keys \<noteq> []"
  proof
    assume e: "?keys = []"
    from mem show False unfolding e by simp
  qed
  from choice_mem [OF this, of rnd] obtain a where a: "a \<in> set ?keys" "choice rnd ?keys = Inr a"
    by blast
  from a(1) obtain p where p: "p \<in> set ?items" "fst p = a" "float_mean (snd p) = ?m"
    unfolding keys by blast
  have run: "select_server rnd metrics s = Inr (s\<lparr>turn_server := Some a\<rparr>)"
    using ms mv a(2) by (simp add: select_server_def)
  have le: "float_mean (snd p) \<le> float_mean q" if "q \<in> set (dict_values metrics)" for q
  proof -
    from that have "float_mean q \<in> set ?rs" unfolding dict_values_def by force
    then have "?m \<le> float_mean q" by (intro Min_le) simp_all
    with p(3) show ?thesis by simp
  qed
  have "(a, snd p) \<in> set ?items" using p(1,2) by (cases p) auto
  with run le show ?thesis by blast
qed

lemma select_server_nan_raises:
  "select_server rnd [(server, [NaN])] s = Inl IndexError"
  by (simp add: select_server_def dict_items_def mean_def special_total_def py_min_def choice_def)

text \<open>
  C5 (as amended). Minimum-mean selection. For a non-empty \<open>metrics\<close> dict whose sample
  lists are all non-empty and hold finite floats only, \<^verbatim>\<open>select_server\<close> does not raise and
  sets \<^verbatim>\<open>turn_server\<close> to a key of the dict whose computed mean (the exact mean rounded
  once to a float, which is what \<^verbatim>\<open>statistics.mean\<close> returns) is at most the computed
  mean of every key; a key whose computed mean is strictly greater is not the one
  selected.
\<close>

theorem select_server_minimum_mean:
  assumes "metrics \<noteq> []"
    and "\<forall>pts \<in> set (dict_values metrics). pts \<noteq> [] \<and> list_all is_finite pts"
  shows "\<exists>a pts. select_server rnd metrics s = Inr (s\<lparr>turn_server := Some a\<rparr>) \<and>
           map_of metrics a = Some pts \<and>
           (\<forall>k q. map_of metrics k = Some q \<longrightarrow>
              float_mean pts \<le> float_mean q \<and> (float_mean pts < float_mean q \<longrightarrow> k \<noteq> a))"
proof -
  from select_server_finite [OF assms, of rnd s] obtain a pts where a:
    "(a, pts) \<in> set (dict_items metrics)"
    "select_server rnd metrics s = Inr (s\<lparr>turn_server := Some a\<rparr>)"
    "\<forall>q \<in> set (dict_values metrics). float_mean pts \<le> float_mean q" by blast
  have look: "map_of metrics a = Some pts" using a(1) by (rule dict_items_map_of)
  have "float_mean pts \<le> float_mean q \<and> (float_mean pts < float_mean q \<longrightarrow> k \<noteq> a)"
    if "map_of metrics k = Some q" for k q
  proof -
    from that have "q \<in> set (dict_values metrics)" by (rule map_of_dict_values)
    with a(3) have "float_mean pts \<le> float_mean q" by blast
    moreover have "k \<noteq> a" if "float_mean pts < float_mean q"
    proof
      assume "k = a"
      with look \<open>map_of metrics k = Some q\<close> have "q = pts" by simp
      with that show False by simp
    qed
    ultimately show ?thesis by blast
  qed
  with a(2) look show ?thesis by blast
qed

text \<open>
  C5 as stated fails. With \<open>9007199254740992 = 2 ^ 53\<close>, the sample lists
  \<open>[2 ^ 53, 2 ^ 53 + 2]\<close> of \<open>''A''\<close> and \<open>[2 ^ 53]\<close> of \<open>''B''\<close> have the arithmetic means
  \<open>2 ^ 53 + 1\<close> and \<open>2 ^ 53\<close>; but \<open>2 ^ 53 + 1\<close> is not a float and rounds to \<open>2 ^ 53\<close>, so
  the two computed means tie and \<^verbatim>\<open>select_server\<close> writes \<open>''A''\<close>, whose arithmetic mean is
  strictly greater than the minimum.
\<close>

theorem select_server_minimum_mean_counterexample:
  "select_server 0
     [(''A'', [Finite 9007199254740992, Finite 9007199254740994]),
      (''B'', [Finite 9007199254740992])]
     \<lparr>turn_server = None, turn_data = None\<rparr>
   = Inr \<lparr>turn_server = Some ''A'', turn_data = None\<rparr>
   \<and> avg [9007199254740992] < avg [9007199254740992, 9007199254740994]"
proof -
  have A: "float_mean [Finite 9007199254740992, Finite 9007199254740994] = 9007199254740992"
    by code_simp
  have B: "float_mean [Finite 9007199254740992] = 9007199254740992"
    by code_simp
  have mA: "mean [Finite 9007199254740992, Finite 9007199254740994] = Inr (Finite 9007199254740992)"
    using A by (simp add: mean_finite)
  have mB: "mean [Finite 9007199254740992] = Inr (Finite 9007199254740992)"
    using B by (simp add: mean_finite)
  have "select_server 0
     [(''A'', [Finite 9007199254740992, Finite 9007199254740994]),
      (''B'', [Finite 9007199254740992])]
     \<lparr>turn_server = None, turn_data = None\<rparr>
   = Inr \<lparr>turn_server = Some ''A'', turn_data = None\<rparr>"
    by (simp add: select_server_def dict_items_def mA mB py_min_def choice_def)
  moreover have "avg [9007199254740992] < avg [9007199254740992, 9007199254740994]"
    by (simp add: avg_def)
  ultimately show ?thesis by blast
qed

theorem select_server_minimum_mean_witness:
  "\<exists>a. select_server 0 [(''A'', [Finite 10]), (''B'', [Finite 4, Finite 6]), (''C'', [Finite 5])]
          \<lparr>turn_server = None, turn_data = None\<rparr>
        = Inr \<lparr>turn_server = Some a, turn_data = None\<rparr> \<and> a \<noteq> ''A''"
proof -
  let ?M = "[(''A'', [Finite 10]), (''B'', [Finite 4, Finite 6]), (''C'', [Finite 5])]"
  let ?s = "\<lparr>turn_server = None, turn_data = None\<rparr>"
  have h1: "?M \<noteq> []" by simp
  have h2: "\<forall>pts \<in> set (dict_values ?M). pts \<noteq> [] \<and> list_all is_finite pts"
    by (simp add: dict_values_def dict_items_def)
  from select_server_minimum_mean [OF h1 h2, of 0 ?s]
  obtain a pts where a: "select_server 0 ?M ?s = Inr (?s\<lparr>turn_server := Some a\<rparr>)"
    and m: "\<forall>k q. map_of ?M k = Some q \<longrightarrow>
              float_mean pts \<le> float_mean q \<and> (float_mean pts < float_mean q \<longrightarrow> k \<noteq> a)"
    by blast
  have "map_of ?M ''B'' = Some [Finite 4, Finite 6]" by simp
  with m have "float_mean pts \<le> float_mean [Finite 4, Finite 6]" by blast
  moreover have "float_mean [Finite 4, Finite 6] < float_mean [Finite 10]" by code_simp
  ultimately have lt: "float_mean pts < float_mean [Finite 10]" by simp
  have "map_of ?M ''A'' = Some [Finite 10]" by simp
  with m lt have "''A'' \<noteq> a" by blast
  with a show ?thesis by auto
qed

section \<open>Series with too few samples\<close>

lemma process_metrics_retains:
  assumes "process_metrics cfg qr = Inr d"
    and "sm \<in> set qr" "enough_samples cfg sm"
  shows "\<exists>k sm'. series_server cfg sm = Some k \<and> sm' \<in> set qr \<and>
           series_server cfg sm' = Some k \<and> enough_samples cfg sm' \<and>
           map_of d k = Some (samples sm')"
proof -
  from assms(1) have loop: "process_metrics_loop cfg qr [] = Inr d"
    by (simp add: process_metrics_def)
  have "series_server cfg sm \<noteq> None"
  proof
    assume "series_server cfg sm = None"
    with assms(2) have "\<exists>sm \<in> set qr. series_server cfg sm = None" by blast
    from process_metrics_loop_raises [OF this, of "[]"] loop show False by simp
  qed
  then obtain k where k: "series_server cfg sm = Some k" by auto
  let ?P = "\<lambda>x. series_server cfg x = Some k \<and> enough_samples cfg x"
  have "\<exists>x \<in> set qr. ?P x" using assms(2,3) k by blast
  from split_list_last_prop [OF this]
  obtain pre x post where x: "qr = pre @ x # post" "?P x" "\<forall>z \<in> set post. \<not> ?P z" by blast
  have "map_of d k = Some (samples x)"
    using loop x by (intro process_metrics_loop_last [of cfg pre x post "[]"]) auto
  moreover have "x \<in> set qr" using x(1) by simp
  ultimately show ?thesis using k x(2) by blast
qed

text \<open>
  C6. Insufficient-data exclusion. When \<^verbatim>\<open>process_metrics\<close> returns a dict \<open>d\<close>: every
  entry of \<open>d\<close> is the full sample list of a series of the query result that has at
  least \<open>durationMinutes\<close> samples, filed under the endpoint that series identifies, so
  a series with fewer samples contributes nothing; every series with at least
  \<open>durationMinutes\<close> samples has its endpoint in \<open>d\<close>, with the full sample list of the
  last such series of that endpoint (its own, when it is the only one); and whatever
  \<^verbatim>\<open>select_server\<close> chooses from \<open>d\<close> is the endpoint of a series with enough samples.
\<close>

theorem process_metrics_excludes_short_series:
  assumes "process_metrics cfg qr = Inr d"
  shows "(\<forall>k v. (k, v) \<in> set d \<longrightarrow>
            (\<exists>sm \<in> set qr. series_server cfg sm = Some k \<and> enough_samples cfg sm \<and>
                             v = samples sm))
       \<and> (\<forall>sm \<in> set qr. enough_samples cfg sm \<longrightarrow>
            (\<exists>k sm'. series_server cfg sm = Some k \<and> sm' \<in> set qr \<and>
                      series_server cfg sm' = Some k \<and> enough_samples cfg sm' \<and>
                      map_of d k = Some (samples sm')))
       \<and> (\<forall>pre sm post k. qr = pre @ sm # post \<and> series_server cfg sm = Some k \<and>
              enough_samples cfg sm \<and>
              (\<forall>sm' \<in> set post. series_server cfg sm' = Some k \<longrightarrow> \<not> enough_samples cfg sm')
            \<longrightarrow> map_of d k = Some (samples sm))
       \<and> (\<forall>rnd s s'. select_server rnd d s = Inr s' \<longrightarrow>
            (\<exists>sm \<in> set qr. turn_server s' = series_server cfg sm \<and> enough_samples cfg sm))"
proof -
  from assms have loop: "process_metrics_loop cfg qr [] = Inr d"
    by (simp add: process_metrics_def)
  have A: "\<exists>sm \<in> set qr. series_server cfg sm = Some k \<and> enough_samples cfg sm \<and> v = samples sm"
    if "(k, v) \<in> set d" for k v
    using process_metrics_loop_entries [OF loop that] by simp
  have B: "\<exists>k sm'. series_server cfg sm = Some k \<and> sm' \<in> set qr \<and>
                      series_server cfg sm' = Some k \<and> enough_samples cfg sm' \<and>
                      map_of d k = Some (samples sm')"
    if "sm \<in> set qr" "enough_samples cfg sm" for sm
    using process_metrics_retains [OF assms that] .
  have C: "map_of d k = Some (samples sm)"
    if "qr = pre @ sm # post" "series_server cfg sm = Some k" "enough_samples cfg sm"
      "\<forall>sm' \<in> set post. series_server cfg sm' = Some k \<longrightarrow> \<not> enough_samples cfg sm'"
    for pre sm post k
    using loop that by (intro process_metrics_loop_last [of cfg pre sm post "[]"]) auto
  have D: "\<exists>sm \<in> set qr. turn_server s' = series_server cfg sm \<and> enough_samples cfg sm"
    if "select_server rnd d s = Inr s'" for rnd s s'
  proof -
    from select_server_Inr [OF that] obtain a pts where a:
      "(a, pts) \<in> set (dict_items d)" "s' = s\<lparr>turn_server := Some a\<rparr>" by blast
    from a(1) have "map_of d a = Some pts" by (rule dict_items_map_of)
    then have "(a, pts) \<in> set d" by (rule map_of_SomeD)
    from A [OF this] obtain sm where "sm \<in> set qr" "series_server cfg sm = Some a"
      "enough_samples cfg sm" by blast
    moreover have "turn_server s' = Some a" using a(2) by simp
    ultimately show ?thesis by (intro bexI [of _ sm]) simp_all
  qed
  show ?thesis
    apply (intro conjI allI impI ballI)
    subgoal for k v by (rule A)
    subgoal for sm by (rule B)
    subgoal for pre sm post k by (rule C [of pre sm post k]) simp_all
    subgoal for rnd s s' by (rule D)
    done
qed

theorem process_metrics_excludes_short_series_witness:
  "process_metrics \<lparr>address = [''t1'', ''t2''], successThreshold = 3, algorithm = ''prometheus'', durationMinutes = 3\<rparr>
     [\<lparr>metric = [(''instance'', ''t1'')], series_values = [(1, Finite 9), (2, Finite 9), (3, Finite 9)]\<rparr>,
      \<lparr>metric = [(''instance'', ''t2'')], series_values = [(1, Finite 1), (2, Finite 1)]\<rparr>]
   = Inr [(''t1'', [Finite 9, Finite 9, Finite 9])]
   \<and> map_of [(''t1'', [Finite 9, Finite 9, Finite 9])] ''t1''
     = Some (samples \<lparr>metric = [(''instance'', ''t1'')], series_values = [(1, Finite 9), (2, Finite 9), (3, Finite 9)]\<rparr>)
   \<and> map_of [(''t1'', [Finite 9, Finite 9, Finite 9])] ''t2'' = None"
proof -
  let ?cfg = "\<lparr>address = [''t1'', ''t2''], successThreshold = 3, algorithm = ''prometheus'', durationMinutes = 3\<rparr>"
  let ?a = "\<lparr>metric = [(''instance'', ''t1'')], series_values = [(1, Finite 9), (2, Finite 9), (3, Finite 9)]\<rparr>"
  let ?b = "\<lparr>metric = [(''instance'', ''t2'')], series_values = [(1, Finite 1), (2, Finite 1)]\<rparr>"
  let ?d = "[(''t1'', [Finite 9, Finite 9, Finite 9])]"
  have run: "process_metrics ?cfg [?a, ?b] = Inr ?d"
    by (simp add: process_metrics_def process_series_def dict_items_def)
  have sa: "series_server ?cfg ?a = Some ''t1''" and sb: "series_server ?cfg ?b = Some ''t2''"
    by (simp_all add: series_server_def dict_items_def)
  have ea: "enough_samples ?cfg ?a" by (simp add: enough_samples_def samples_def)
  have post: "\<forall>sm' \<in> set [?b]. series_server ?cfg sm' = Some ''t1'' \<longrightarrow> \<not> enough_samples ?cfg sm'"
    using sb by simp
  have split: "[?a, ?b] = [] @ ?a # [?b]" by simp
  from process_metrics_excludes_short_series [OF run, THEN conjunct2, THEN conjunct2, THEN conjunct1,
      rule_format, of "[]" ?a "[?b]" "''t1''"] split sa ea post
  have "map_of ?d ''t1'' = Some (samples ?a)" by blast
  with run show ?thesis by simp
qed

section \<open>One pass of the load-balancer loop\<close>

lemma LoadBalancer_cycle_no_healthy:
  assumes "turn_data s = Some td" "healthy_servers td = []"
  shows "LoadBalancer_cycle cfg resp rnd s = random_server cfg rnd s"
  using assms by (simp add: LoadBalancer_cycle_def random_healthy_server_def)

lemma LoadBalancer_cycle_fallback:
  assumes "algorithm cfg \<noteq> ''random''" "turn_data s = Some td" "1 < length (healthy_servers td)"
    and "resp = RequestRaises \<or> resp = ResponseNotOk \<or> resp = ResponseResult []"
  shows "LoadBalancer_cycle cfg resp rnd s = random_healthy_server cfg rnd s"
proof -
  have ne: "healthy_servers td \<noteq> []" using assms(3) by auto
  have one: "length (healthy_servers td) \<noteq> 1" using assms(3) by simp
  from assms(4) show ?thesis
  proof (elim disjE)
    assume "resp = RequestRaises"
    then show ?thesis using assms(1,2) ne one
      by (simp add: LoadBalancer_cycle_def get_prometheus_metrics_def)
  next
    assume "resp = ResponseNotOk"
    then show ?thesis using assms(1,2) ne one
      by (simp add: LoadBalancer_cycle_def get_prometheus_metrics_def)
  next
    assume "resp = ResponseResult []"
    then show ?thesis using assms(1,2) ne one
      by (simp add: LoadBalancer_cycle_def get_prometheus_metrics_def)
  qed
qed

lemma LoadBalancer_cycle_metrics:
  assumes "algorithm cfg \<noteq> ''random''" "turn_data s = Some td" "1 < length (healthy_servers td)"
    and "qr \<noteq> []"
  shows "LoadBalancer_cycle cfg (ResponseResult qr) rnd s =
           (case process_metrics cfg qr of
              Inl e \<Rightarrow> Inl e
            | Inr metrics \<Rightarrow>
                if metrics \<noteq> [] then select_server rnd metrics s
                else random_healthy_server cfg rnd s)"
proof -
  have ne: "healthy_servers td \<noteq> []" using assms(3) by auto
  have one: "length (healthy_servers td) \<noteq> 1" using assms(3) by simp
  show ?thesis using assms(1,2,4) ne one
    by (simp add: LoadBalancer_cycle_def get_prometheus_metrics_def)
qed

lemma no_label_series_server:
  assumes "\<forall>v \<in> set (dict_values (metric sm)). v \<notin> set (address cfg)"
  shows "series_server cfg sm = None"
proof -
  have "find_label (address cfg) (dict_items (metric sm)) = None"
    using assms unfolding find_label_None dict_values_def .
  then show ?thesis by (simp add: series_server_def)
qed

text \<open>
  C7. Metrics-failure fallback. In metric-driven mode with more than one Healthy
  endpoint, when the request raises, or the response is not ok, or the result list is
  empty, the pass is exactly \<^verbatim>\<open>random_healthy_server\<close>: it does not raise and writes a
  currently Healthy endpoint into \<^verbatim>\<open>turn_server\<close>.
\<close>

theorem metrics_failure_falls_back:
  assumes "algorithm cfg \<noteq> ''random''" "turn_data s = Some td" "1 < length (healthy_servers td)"
    and "resp = RequestRaises \<or> resp = ResponseNotOk \<or> resp = ResponseResult []"
  shows "LoadBalancer_cycle cfg resp rnd s = random_healthy_server cfg rnd s \<and>
         (\<exists>a \<in> set (healthy_servers td).
            LoadBalancer_cycle cfg resp rnd s = Inr (s\<lparr>turn_server := Some a\<rparr>))"
proof -
  have ne: "healthy_servers td \<noteq> []" using assms(3) by auto
  from LoadBalancer_cycle_fallback [OF assms, of rnd]
    random_healthy_server_healthy [OF assms(2) ne, of cfg rnd]
  show ?thesis by simp
qed

theorem metrics_failure_falls_back_witness:
  "LoadBalancer_cycle
     \<lparr>address = [''t1'', ''t2''], successThreshold = 3, algorithm = ''prometheus'', durationMinutes = 3\<rparr>
     RequestRaises 1
     \<lparr>turn_server = Some ''t1'',
      turn_data = Some [(''t1'', \<lparr>initial = 0, success_th = 3, failed_checks = Some 0, healthy = Some True\<rparr>),
                        (''t2'', \<lparr>initial = 0, success_th = 3, failed_checks = Some 1, healthy = Some True\<rparr>)]\<rparr>
   = Inr \<lparr>turn_server = Some ''t2'',
      turn_data = Some [(''t1'', \<lparr>initial = 0, success_th = 3, failed_checks = Some 0, healthy = Some True\<rparr>),
                        (''t2'', \<lparr>initial = 0, success_th = 3, failed_checks = Some 1, healthy = Some True\<rparr>)]\<rparr>"
proof -
  let ?cfg = "\<lparr>address = [''t1'', ''t2''], successThreshold = 3, algorithm = ''prometheus'', durationMinutes = 3\<rparr>"
  let ?td = "[(''t1'', \<lparr>initial = 0, success_th = 3, failed_checks = Some 0, healthy = Some True\<rparr>),
              (''t2'', \<lparr>initial = 0, success_th = 3, failed_checks = Some 1, healthy = Some True\<rparr>)]"
  let ?s = "\<lparr>turn_server = Some ''t1'', turn_data = Some ?td\<rparr>"
  have h1: "algorithm ?cfg \<noteq> ''random''" by simp
  have h2: "turn_data ?s = Some ?td" by simp
  have h3: "1 < length (healthy_servers ?td)"
    by (simp add: healthy_servers_def dict_items_def)
  have h4: "RequestRaises = RequestRaises \<or> RequestRaises = ResponseNotOk \<or> RequestRaises = ResponseResult []"
    by simp
  have "random_healthy_server ?cfg 1 ?s = Inr \<lparr>turn_server = Some ''t2'', turn_data = Some ?td\<rparr>"
    by (simp add: random_healthy_server_def healthy_servers_def dict_items_def choice_def)
  with metrics_failure_falls_back [OF h1 h2 h3 h4, of 1] show ?thesis by simp
qed

section \<open>A series that names no endpoint\<close>

text \<open>
  C8 (as amended). In metric-driven mode with more than one Healthy endpoint, when the
  result list contains a series none of whose label values is an endpoint of the
  registry, \<^verbatim>\<open>process_metrics\<close> raises its exception, the pass of the loop ends with that
  exception and writes nothing, and the run stops there: no fallback selection is made.
\<close>

theorem unrecognized_label_raises:
  assumes "algorithm cfg \<noteq> ''random''" "turn_data s = Some td" "1 < length (healthy_servers td)"
    and "\<exists>sm \<in> set qr. \<forall>v \<in> set (dict_values (metric sm)). v \<notin> set (address cfg)"
  shows "process_metrics cfg qr = Inl ConfigException \<and>
         LoadBalancer_cycle cfg (ResponseResult qr) rnd s = Inl ConfigException \<and>
         (\<not> initial_check_pending s \<longrightarrow>
            exec cfg (Select (ResponseResult qr) rnd # evs) s = Inl ConfigException)"
proof -
  from assms(4) have bad: "\<exists>sm \<in> set qr. series_server cfg sm = None"
    using no_label_series_server by blast
  then have ne: "qr \<noteq> []" by auto
  from process_metrics_loop_raises [OF bad, of "[]"]
  have pm: "process_metrics cfg qr = Inl ConfigException" by (simp add: process_metrics_def)
  from LoadBalancer_cycle_metrics [OF assms(1-3) ne, of rnd] pm
  have cyc: "LoadBalancer_cycle cfg (ResponseResult qr) rnd s = Inl ConfigException" by simp
  have "exec cfg (Select (ResponseResult qr) rnd # evs) s = Inl ConfigException"
    if "\<not> initial_check_pending s"
    using that cyc by (simp add: step_def)
  with pm cyc show ?thesis by blast
qed

text \<open>
  C8 as stated fails: with two Healthy endpoints and a result list whose only series
  carries the label value \<open>''elsewhere''\<close>, the pass raises, where
  \<^verbatim>\<open>random_healthy_server\<close> on the same state would have selected \<open>''t1''\<close>.
\<close>

theorem unrecognized_label_counterexample:
  "LoadBalancer_cycle
     \<lparr>address = [''t1'', ''t2''], successThreshold = 3, algorithm = ''prometheus'', durationMinutes = 3\<rparr>
     (ResponseResult [\<lparr>metric = [(''instance'', ''elsewhere'')], series_values = [(1, Finite 9), (2, Finite 9), (3, Finite 9)]\<rparr>])
     0
     \<lparr>turn_server = Some ''t2'',
      turn_data = Some [(''t1'', \<lparr>initial = 0, success_th = 3, failed_checks = Some 0, healthy = Some True\<rparr>),
                        (''t2'', \<lparr>initial = 0, success_th = 3, failed_checks = Some 0, healthy = Some True\<rparr>)]\<rparr>
   = Inl ConfigException
   \<and> random_healthy_server
     \<lparr>address = [''t1'', ''t2''], successThreshold = 3, algorithm = ''prometheus'', durationMinutes = 3\<rparr>
     0
     \<lparr>turn_server = Some ''t2'',
      turn_data = Some [(''t1'', \<lparr>initial = 0, success_th = 3, failed_checks = Some 0, healthy = Some True\<rparr>),
                        (''t2'', \<lparr>initial = 0, success_th = 3, failed_checks = Some 0, healthy = Some True\<rparr>)]\<rparr>
   = Inr \<lparr>turn_server = Some ''t1'',
      turn_data = Some [(''t1'', \<lparr>initial = 0, success_th = 3, failed_checks = Some 0, healthy = Some True\<rparr>),
                        (''t2'', \<lparr>initial = 0, success_th = 3, failed_checks = Some 0, healthy = Some True\<rparr>)]\<rparr>"
  by (simp add: LoadBalancer_cycle_def get_prometheus_metrics_def process_metrics_def
      process_series_def random_healthy_server_def healthy_servers_def dict_items_def choice_def)

theorem unrecognized_label_raises_witness:
  "exec
     \<lparr>address = [''t1'', ''t2''], successThreshold = 3, algorithm = ''prometheus'', durationMinutes = 3\<rparr>
     [Select (ResponseResult [\<lparr>metric = [(''instance'', ''elsewhere'')], series_values = [(1, Finite 9), (2, Finite 9), (3, Finite 9)]\<rparr>]) 0,
      Select RequestRaises 0]
     \<lparr>turn_server = Some ''t2'',
      turn_data = Some [(''t1'', \<lparr>initial = 0, success_th = 3, failed_checks = Some 0, healthy = Some True\<rparr>),
                        (''t2'', \<lparr>initial = 0, success_th = 3, failed_checks = Some 0, healthy = Some True\<rparr>)]\<rparr>
   = Inl ConfigException"
proof -
  let ?cfg = "\<lparr>address = [''t1'', ''t2''], successThreshold = 3, algorithm = ''prometheus'', durationMinutes = 3\<rparr>"
  let ?td = "[(''t1'', \<lparr>initial = 0, success_th = 3, failed_checks = Some 0, healthy = Some True\<rparr>),
              (''t2'', \<lparr>initial = 0, success_th = 3, failed_checks = Some 0, healthy = Some True\<rparr>)]"
  let ?s = "\<lparr>turn_server = Some ''t2'', turn_data = Some ?td\<rparr>"
  let ?qr = "[\<lparr>metric = [(''instance'', ''elsewhere'')], series_values = [(1, Finite 9), (2, Finite 9), (3, Finite 9)]\<rparr>]"
  have h1: "algorithm ?cfg \<noteq> ''random''" by simp
  have h2: "turn_data ?s = Some ?td" by simp
  have h3: "1 < length (healthy_servers ?td)"
    by (simp add: healthy_servers_def dict_items_def)
  have h4: "\<exists>sm \<in> set ?qr. \<forall>v \<in> set (dict_values (metric sm)). v \<notin> set (address ?cfg)"
    by (simp add: dict_values_def dict_items_def)
  have h5: "\<not> initial_check_pending ?s"
    by (simp add: initial_check_pending_def dict_values_def dict_items_def)
  from unrecognized_label_raises [OF h1 h2 h3 h4, of 0 "[Select RequestRaises 0]"] h5
  show ?thesis by blast
qed

section \<open>No Healthy endpoint\<close>

text \<open>
  C9. Total-outage liveness. When no endpoint is Healthy and the registry is not empty,
  \<^verbatim>\<open>random_healthy_server\<close> and a pass of the load-balancer loop (in either mode) are both
  exactly \<^verbatim>\<open>random_server\<close>: they do not raise and write a member of the full registry
  into \<^verbatim>\<open>turn_server\<close>, which is therefore set afterwards.
\<close>

theorem total_outage_selects_from_registry:
  assumes "address cfg \<noteq> []" "turn_data s = Some td" "healthy_servers td = []"
  shows "\<exists>a \<in> set (address cfg).
           random_server cfg rnd s = Inr (s\<lparr>turn_server := Some a\<rparr>) \<and>
           random_healthy_server cfg rnd s = Inr (s\<lparr>turn_server := Some a\<rparr>) \<and>
           LoadBalancer_cycle cfg resp rnd s = Inr (s\<lparr>turn_server := Some a\<rparr>)"
proof -
  from random_server_total [OF assms(1), of rnd s]
  obtain a where a: "a \<in> set (address cfg)" "random_server cfg rnd s = Inr (s\<lparr>turn_server := Some a\<rparr>)"
    by blast
  have "random_healthy_server cfg rnd s = random_server cfg rnd s"
    using assms(2,3) by (rule random_healthy_server_none)
  moreover have "LoadBalancer_cycle cfg resp rnd s = random_server cfg rnd s"
    using assms(2,3) by (rule LoadBalancer_cycle_no_healthy)
  ultimately show ?thesis using a by auto
qed

theorem total_outage_selects_from_registry_witness:
  "LoadBalancer_cycle
     \<lparr>address = [''t1'', ''t2''], successThreshold = 3, algorithm = ''prometheus'', durationMinutes = 3\<rparr>
     RequestRaises 1
     \<lparr>turn_server = None,
      turn_data = Some [(''t1'', \<lparr>initial = 0, success_th = 3, failed_checks = Some 3, healthy = Some False\<rparr>),
                        (''t2'', \<lparr>initial = 0, success_th = 3, failed_checks = Some 3, healthy = Some False\<rparr>)]\<rparr>
   = Inr \<lparr>turn_server = Some ''t2'',
      turn_data = Some [(''t1'', \<lparr>initial = 0, success_th = 3, failed_checks = Some 3, healthy = Some False\<rparr>),
                        (''t2'', \<lparr>initial = 0, success_th = 3, failed_checks = Some 3, healthy = Some False\<rparr>)]\<rparr>"
proof -
  let ?cfg = "\<lparr>address = [''t1'', ''t2''], successThreshold = 3, algorithm = ''prometheus'', durationMinutes = 3\<rparr>"
  let ?td = "[(''t1'', \<lparr>initial = 0, success_th = 3, failed_checks = Some 3, healthy = Some False\<rparr>),
              (''t2'', \<lparr>initial = 0, success_th = 3, failed_checks = Some 3, healthy = Some False\<rparr>)]"
  let ?s = "\<lparr>turn_server = None, turn_data = Some ?td\<rparr>"
  have h1: "address ?cfg \<noteq> []" by simp
  have h2: "turn_data ?s = Some ?td" by simp
  have h3: "healthy_servers ?td = []" by (simp add: healthy_servers_def dict_items_def)
  from total_outage_selects_from_registry [OF h1 h2 h3, of 1 RequestRaises]
  obtain a where a: "random_server ?cfg 1 ?s = Inr (?s\<lparr>turn_server := Some a\<rparr>)"
    "LoadBalancer_cycle ?cfg RequestRaises 1 ?s = Inr (?s\<lparr>turn_server := Some a\<rparr>)" by blast
  have "random_server ?cfg 1 ?s = Inr (?s\<lparr>turn_server := Some ''t2''\<rparr>)"
    by (simp add: random_server_def choice_def)
  with a show ?thesis by simp
qed

section \<open>Preservation of the invariants\<close>

lemma dict_items_subset: "set (dict_items td) \<subseteq> set td"
proof
  fix p assume p: "p \<in> set (dict_items td)"
  obtain k d where kd: "p = (k, d)" by (cases p)
  with p have "map_of td k = Some d" by (simp add: dict_items_map_of)
  then have "(k, d) \<in> set td" by (rule map_of_SomeD)
  with kd show "p \<in> set td" by simp
qed

lemma dict_values_subset: "set (dict_values td) \<subseteq> snd ` set td"
  unfolding dict_values_def using dict_items_subset [of td] by auto

lemma pending_iff:
  "turn_data s = Some td \<Longrightarrow>
   initial_check_pending s \<longleftrightarrow> (\<exists>d \<in> set (dict_values td). healthy d = None)"
  by (simp add: initial_check_pending_def filter_empty_conv)

lemma state_ok_initial: "state_ok cfg (initial_state cfg)"
proof -
  let ?td = "HealthCheck_init cfg"
  have keys: "fst ` set ?td = set (address cfg)"
    unfolding HealthCheck_init_def by force
  have "entry_ok (successThreshold cfg) d" if "d \<in> snd ` set ?td" for d
    using that unfolding HealthCheck_init_def by (auto simp: entry_ok_def)
  then have "\<forall>d \<in> set (dict_values ?td). entry_ok (successThreshold cfg) d"
    using dict_values_subset [of ?td] by blast
  with keys show ?thesis by (simp add: state_ok_def initial_state_def)
qed

lemma state_ok_table:
  assumes "state_ok cfg s"
  obtains td where "turn_data s = Some td" "fst ` set td = set (address cfg)"
    "\<forall>d \<in> set (dict_values td). entry_ok (successThreshold cfg) d"
  using assms by (auto simp: state_ok_def split: option.splits)

lemma state_ok_active:
  assumes "state_ok cfg s" "turn_server s = Some a"
  shows "a \<in> set (address cfg) \<and> \<not> initial_check_pending s"
  using assms by (auto simp: state_ok_def split: option.splits)

lemma state_ok_write:
  assumes "state_ok cfg s" "a \<in> set (address cfg)" "\<not> initial_check_pending s"
  shows "state_ok cfg (s\<lparr>turn_server := Some a\<rparr>)"
  using assms by (auto simp: state_ok_def initial_check_pending_def split: option.splits)

lemma state_ok_store:
  assumes ok: "state_ok cfg s" and td: "turn_data s = Some td"
    and d: "map_of td server = Some d" and d': "entry_ok (successThreshold cfg) d'" "healthy d' \<noteq> None"
  shows "state_ok cfg (s\<lparr>turn_data := Some (AList.update server d' td)\<rparr>)"
proof -
  let ?td' = "AList.update server d' td"
  let ?s1 = "s\<lparr>turn_data := Some ?td'\<rparr>"
  from ok td have keys: "fst ` set td = set (address cfg)"
    and vals: "\<forall>d \<in> set (dict_values td). entry_ok (successThreshold cfg) d"
    by (auto simp: state_ok_def)
  from d have "(server, d) \<in> set td" by (rule map_of_SomeD)
  then have "server \<in> fst ` set td" by (rule image_eqI [rotated]) simp
  then have keys': "fst ` set ?td' = set (address cfg)"
    using keys by (auto simp: dom_update)
  have sub: "set (dict_values ?td') \<subseteq> insert d' (set (dict_values td))"
    by (rule dict_values_update)
  have vals': "\<forall>x \<in> set (dict_values ?td'). entry_ok (successThreshold cfg) x"
    using sub vals d'(1) by blast
  have act: "a \<in> set (address cfg) \<and> \<not> initial_check_pending ?s1" if a: "turn_server s = Some a" for a
  proof -
    from state_ok_active [OF ok a] have mem: "a \<in> set (address cfg)"
      and np: "\<not> initial_check_pending s" by simp_all
    from np td have "\<forall>x \<in> set (dict_values td). healthy x \<noteq> None"
      by (simp add: pending_iff)
    with sub d'(2) have "\<forall>x \<in> set (dict_values ?td'). healthy x \<noteq> None" by blast
    then have "\<not> initial_check_pending ?s1" by (simp add: pending_iff [of ?s1 ?td'])
    with mem show ?thesis by simp
  qed
  show ?thesis
    using keys' vals' act by (simp add: state_ok_def split: option.splits)
qed

lemma state_ok_random_healthy_server:
  assumes ok: "state_ok cfg s" and np: "\<not> initial_check_pending s"
    and r: "random_healthy_server cfg rnd s = Inr s'"
  shows "state_ok cfg s' \<and> (\<exists>a \<in> set (address cfg). s' = s\<lparr>turn_server := Some a\<rparr>)"
proof -
  from random_healthy_server_Inr [OF r] obtain td a where a: "turn_data s = Some td"
    "s' = s\<lparr>turn_server := Some a\<rparr>"
    "if healthy_servers td \<noteq> [] then a \<in> set (healthy_servers td) else a \<in> set (address cfg)"
    by blast
  from ok a(1) have keys: "fst ` set td = set (address cfg)" by (auto simp: state_ok_def)
  have "a \<in> set (address cfg)"
    using a(3) healthy_servers_keys [of td] keys by (auto split: if_splits)
  with state_ok_write [OF ok _ np] a(2) show ?thesis by blast
qed

lemma state_ok_check_current_server:
  assumes ok: "state_ok cfg s" and c: "check_current_server cfg rnd s = Inr s'"
  shows "state_ok cfg s'"
proof -
  from check_current_server_Inr [OF c]
  consider "s' = s" | "turn_server s \<noteq> None" "random_healthy_server cfg rnd s = Inr s'" by blast
  then show ?thesis
  proof cases
    case 1
    with ok show ?thesis by simp
  next
    case 2
    from 2(1) obtain a where "turn_server s = Some a" by auto
    from state_ok_active [OF ok this] have "\<not> initial_check_pending s" by simp
    from state_ok_random_healthy_server [OF ok this 2(2)] show ?thesis by simp
  qed
qed

lemma process_health_check_unfold:
  assumes "turn_data s = Some td" "map_of td server = Some d" "update_entry passed d = Inr d'"
  shows "process_health_check cfg server passed rnd s =
           check_current_server cfg rnd (s\<lparr>turn_data := Some (AList.update server d' td)\<rparr>)"
  using assms
  by (auto simp: process_health_check_def update_entry_def split: sum.splits)

lemma state_ok_process_health_check:
  assumes ok: "state_ok cfg s" and n: "0 < successThreshold cfg"
    and srv: "server \<in> set (address cfg)"
  shows "\<exists>s' d c. process_health_check cfg server passed rnd s = Inr s' \<and> state_ok cfg s' \<and>
           entry s' server = Some d \<and> healthy d \<noteq> None \<and>
           failed_checks d = Some c \<and> 0 \<le> c \<and> c \<le> successThreshold cfg"
proof -
  from ok obtain td where td: "turn_data s = Some td" "fst ` set td = set (address cfg)"
    "\<forall>d \<in> set (dict_values td). entry_ok (successThreshold cfg) d"
    by (rule state_ok_table)
  from srv td(2) have "server \<in> fst ` set td" by simp
  then obtain d where d: "map_of td server = Some d"
    by (metis domD dom_map_of_conv_image_fst)
  from map_of_dict_values [OF d] td(3) have dok: "entry_ok (successThreshold cfg) d" by blast
  from update_entry_ok [OF dok n, of passed]
  obtain d' where d': "update_entry passed d = Inr d'" "entry_ok (successThreshold cfg) d'"
    "healthy d' \<noteq> None"
    by (cases "update_entry passed d") auto
  let ?s1 = "s\<lparr>turn_data := Some (AList.update server d' td)\<rparr>"
  have ok1: "state_ok cfg ?s1" using ok td(1) d d'(2,3) by (rule state_ok_store)
  have ne: "address cfg \<noteq> []" using srv by auto
  have "turn_data ?s1 = Some (AList.update server d' td)" by simp
  from check_current_server_total [OF this ne, of rnd]
  obtain s' where s': "check_current_server cfg rnd ?s1 = Inr s'"
    "turn_data s' = Some (AList.update server d' td)" by blast
  have run: "process_health_check cfg server passed rnd s = Inr s'"
    using process_health_check_unfold [OF td(1) d d'(1), of cfg rnd] s'(1) by simp
  have ok': "state_ok cfg s'" using ok1 s'(1) by (rule state_ok_check_current_server)
  have e: "entry s' server = Some d'" using s'(2) by (simp add: entry_def update_conv')
  from d'(2,3) obtain c where "failed_checks d' = Some c" "0 \<le> c" "c \<le> successThreshold cfg"
    by (auto simp: entry_ok_def split: option.splits)
  with run ok' e d'(3) show ?thesis by blast
qed

lemma process_health_check_key:
  assumes "process_health_check cfg server passed rnd s = Inr s'" "state_ok cfg s"
  shows "server \<in> set (address cfg)"
proof -
  from process_health_check_Inr [OF assms(1)] obtain td d where
    td: "turn_data s = Some td" "map_of td server = Some d" by blast
  from td(2) have "(server, d) \<in> set td" by (rule map_of_SomeD)
  then have "server \<in> fst ` set td" by (rule image_eqI [rotated]) simp
  with assms(2) td(1) show ?thesis by (auto simp: state_ok_def)
qed

lemma process_metrics_keys:
  assumes "process_metrics cfg qr = Inr metrics"
  shows "fst ` set metrics \<subseteq> set (address cfg)"
proof
  fix k assume "k \<in> fst ` set metrics"
  then obtain v where kv: "(k, v) \<in> set metrics" by auto
  from assms have "process_metrics_loop cfg qr [] = Inr metrics"
    by (simp add: process_metrics_def)
  from process_metrics_loop_entries [OF this kv]
  obtain sm where "series_server cfg sm = Some k" by auto
  then show "k \<in> set (address cfg)" by (rule series_server_registry)
qed

lemma select_server_key:
  assumes "select_server rnd metrics s = Inr s'"
  shows "\<exists>a \<in> fst ` set metrics. s' = s\<lparr>turn_server := Some a\<rparr>"
proof -
  from select_server_Inr [OF assms] obtain a pts where a:
    "(a, pts) \<in> set (dict_items metrics)" "s' = s\<lparr>turn_server := Some a\<rparr>" by blast
  from a(1) dict_items_subset [of metrics] have "(a, pts) \<in> set metrics" by blast
  then have "a \<in> fst ` set metrics" by (rule image_eqI [rotated]) simp
  with a(2) show ?thesis by blast
qed

lemma LoadBalancer_cycle_Inr:
  assumes c: "LoadBalancer_cycle cfg resp rnd s = Inr s'"
  shows "\<exists>td a. turn_data s = Some td \<and> s' = s\<lparr>turn_server := Some a\<rparr> \<and>
           (a \<in> fst ` set td \<or> a \<in> set (address cfg))"
proof -
  have rh: "\<exists>td a. turn_data s = Some td \<and> s' = s\<lparr>turn_server := Some a\<rparr> \<and>
           (a \<in> fst ` set td \<or> a \<in> set (address cfg))"
    if "random_healthy_server cfg rnd s = Inr s'"
  proof -
    from random_healthy_server_Inr [OF that] obtain td a where a: "turn_data s = Some td"
      "s' = s\<lparr>turn_server := Some a\<rparr>"
      "if healthy_servers td \<noteq> [] then a \<in> set (healthy_servers td) else a \<in> set (address cfg)"
      by blast
    have "a \<in> fst ` set td \<or> a \<in> set (address cfg)"
      using a(3) healthy_servers_keys [of td] by (auto split: if_splits)
    with a(1,2) show ?thesis by blast
  qed
  show ?thesis
  proof (cases "algorithm cfg = ''random''")
    case True
    with c have "random_healthy_server cfg rnd s = Inr s'" by (simp add: LoadBalancer_cycle_def)
    then show ?thesis by (rule rh)
  next
    case False
    with c obtain td where td: "turn_data s = Some td"
      by (cases "turn_data s") (simp_all add: LoadBalancer_cycle_def)
    show ?thesis
    proof (cases "healthy_servers td = []")
      case True
      with c td have "random_server cfg rnd s = Inr s'" by (simp add: LoadBalancer_cycle_no_healthy)
      from random_server_Inr [OF this] td show ?thesis by blast
    next
      case ne: False
      show ?thesis
      proof (cases "length (healthy_servers td) = 1")
        case True
        then obtain a where a: "healthy_servers td = [a]"
          by (cases "healthy_servers td") auto
        with c td False have "s' = s\<lparr>turn_server := Some a\<rparr>"
          by (simp add: LoadBalancer_cycle_def)
        moreover have "a \<in> fst ` set td" using healthy_servers_keys [of td] a by simp
        ultimately show ?thesis using td by blast
      next
        case many: False
        with ne have gt: "1 < length (healthy_servers td)"
          by (cases "healthy_servers td") auto
        show ?thesis
        proof (cases resp)
          case RequestRaises
          with LoadBalancer_cycle_fallback [OF False td gt, of resp rnd] c
          show ?thesis by (intro rh) simp
        next
          case ResponseNotOk
          with LoadBalancer_cycle_fallback [OF False td gt, of resp rnd] c
          show ?thesis by (intro rh) simp
        next
          case ResponseMalformed
          with c td False ne many show ?thesis
            by (simp add: LoadBalancer_cycle_def get_prometheus_metrics_def)
        next
          case (ResponseResult qr)
          show ?thesis
          proof (cases "qr = []")
            case True
            with ResponseResult LoadBalancer_cycle_fallback [OF False td gt, of resp rnd] c
            show ?thesis by (intro rh) simp
          next
            case qne: False
            from LoadBalancer_cycle_metrics [OF False td gt qne, of rnd] c ResponseResult
            have eq: "(case process_metrics cfg qr of
                        Inl e \<Rightarrow> Inl e
                      | Inr metrics \<Rightarrow>
                          if metrics \<noteq> [] then select_server rnd metrics s
                          else random_healthy_server cfg rnd s) = Inr s'" by simp
            then obtain metrics where m: "process_metrics cfg qr = Inr metrics"
              by (cases "process_metrics cfg qr") simp_all
            show ?thesis
            proof (cases "metrics = []")
              case True
              with eq m show ?thesis by (intro rh) simp
            next
              case False
              with eq m have "select_server rnd metrics s = Inr s'" by simp
              from select_server_key [OF this] process_metrics_keys [OF m] td
              show ?thesis by blast
            qed
          qed
        qed
      qed
    qed
  qed
qed

lemma state_ok_LoadBalancer_cycle:
  assumes ok: "state_ok cfg s" and np: "\<not> initial_check_pending s"
    and c: "LoadBalancer_cycle cfg resp rnd s = Inr s'"
  shows "state_ok cfg s' \<and> (\<exists>a \<in> set (address cfg). s' = s\<lparr>turn_server := Some a\<rparr>)"
proof -
  from LoadBalancer_cycle_Inr [OF c] obtain td a where a: "turn_data s = Some td"
    "s' = s\<lparr>turn_server := Some a\<rparr>" "a \<in> fst ` set td \<or> a \<in> set (address cfg)" by blast
  from ok a(1) have "fst ` set td = set (address cfg)" by (auto simp: state_ok_def)
  with a(3) have mem: "a \<in> set (address cfg)" by auto
  from state_ok_write [OF ok mem np] a(2) mem show ?thesis by blast
qed

lemma state_ok_step:
  assumes ok: "state_ok cfg s" and n: "0 < successThreshold cfg" and st: "step cfg ev s = Inr s'"
  shows "state_ok cfg s'"
proof (cases ev)
  case (Probe server passed rnd)
  with st have run: "process_health_check cfg server passed rnd s = Inr s'" by (simp add: step_def)
  from process_health_check_key [OF run ok] have "server \<in> set (address cfg)" .
  from state_ok_process_health_check [OF ok n this, of passed rnd] run
  show ?thesis by auto
next
  case (Select resp rnd)
  show ?thesis
  proof (cases "initial_check_pending s")
    case True
    with st Select ok show ?thesis by (simp add: step_def)
  next
    case False
    with st Select have "LoadBalancer_cycle cfg resp rnd s = Inr s'" by (simp add: step_def)
    from state_ok_LoadBalancer_cycle [OF ok False this] show ?thesis by simp
  qed
qed

lemma state_ok_exec:
  assumes "state_ok cfg s" "0 < successThreshold cfg" "exec cfg evs s = Inr s'"
  shows "state_ok cfg s'"
  using assms
proof (induction evs arbitrary: s)
  case Nil
  then show ?case by simp
next
  case (Cons ev evs)
  from Cons.prems(3) obtain s1 where s1: "step cfg ev s = Inr s1" "exec cfg evs s1 = Inr s'"
    by (cases "step cfg ev s") simp_all
  from state_ok_step [OF Cons.prems(1,2) s1(1)] have "state_ok cfg s1" .
  from Cons.IH [OF this Cons.prems(2) s1(2)] show ?case .
qed

lemma reachable_state_ok:
  assumes "0 < successThreshold cfg" "exec cfg evs (initial_state cfg) = Inr s"
  shows "state_ok cfg s"
  using state_ok_initial assms by (rule state_ok_exec)

lemma state_ok_entry:
  assumes ok: "state_ok cfg s" and srv: "server \<in> set (address cfg)"
  shows "\<exists>d. entry s server = Some d \<and> entry_ok (successThreshold cfg) d"
proof -
  from ok obtain td where td: "turn_data s = Some td" "fst ` set td = set (address cfg)"
    "\<forall>d \<in> set (dict_values td). entry_ok (successThreshold cfg) d"
    by (rule state_ok_table)
  from srv td(2) have "server \<in> fst ` set td" by simp
  then obtain d where d: "map_of td server = Some d"
    by (metis domD dom_map_of_conv_image_fst)
  from map_of_dict_values [OF d] td(3) have "entry_ok (successThreshold cfg) d" by blast
  with d td(1) show ?thesis by (simp add: entry_def)
qed

lemma process_health_check_other:
  assumes "process_health_check cfg server passed rnd s = Inr s'" "other \<noteq> server"
  shows "entry s' other = entry s other"
proof -
  from process_health_check_Inr [OF assms(1)] obtain td d1 where
    "turn_data s = Some td" "turn_data s' = Some (AList.update server (update_healthy d1) td)"
    by blast
  with assms(2) show ?thesis by (simp add: entry_def update_conv')
qed

lemma health_checks_bounded:
  assumes "state_ok cfg s" "0 < successThreshold cfg"
    and "\<forall>p \<in> set ps. fst p \<in> set (address cfg)"
  shows "\<exists>s'. health_checks cfg ps s = Inr s' \<and> state_ok cfg s' \<and>
           (\<forall>server. (server \<in> fst ` set ps \<or> (\<exists>d. entry s server = Some d \<and> healthy d \<noteq> None))
              \<longrightarrow> (\<exists>d. entry s' server = Some d \<and> healthy d \<noteq> None))"
  using assms
proof (induction ps arbitrary: s)
  case Nil
  then show ?case by simp
next
  case (Cons p ps)
  obtain server passed rnd where p: "p = (server, passed, rnd)" by (cases p)
  with Cons.prems(3) have srv: "server \<in> set (address cfg)" by simp
  from state_ok_process_health_check [OF Cons.prems(1,2) srv, of passed rnd]
  obtain s1 d1 where s1: "process_health_check cfg server passed rnd s = Inr s1" "state_ok cfg s1"
    "entry s1 server = Some d1" "healthy d1 \<noteq> None" by blast
  from Cons.prems(3) have rest: "\<forall>p \<in> set ps. fst p \<in> set (address cfg)" by simp
  from Cons.IH [OF s1(2) Cons.prems(2) rest]
  obtain s' where s': "health_checks cfg ps s1 = Inr s'" "state_ok cfg s'"
    and det: "\<forall>x. (x \<in> fst ` set ps \<or> (\<exists>d. entry s1 x = Some d \<and> healthy d \<noteq> None))
              \<longrightarrow> (\<exists>d. entry s' x = Some d \<and> healthy d \<noteq> None)" by blast
  have run: "health_checks cfg (p # ps) s = Inr s'" using p s1(1) s'(1) by simp
  have "\<exists>d. entry s' x = Some d \<and> healthy d \<noteq> None"
    if x: "x \<in> fst ` set (p # ps) \<or> (\<exists>d. entry s x = Some d \<and> healthy d \<noteq> None)" for x
  proof (cases "x = server")
    case True
    with s1(3,4) det show ?thesis by blast
  next
    case False
    from process_health_check_other [OF s1(1) False] have "entry s1 x = entry s x" .
    moreover from x False p have "x \<in> fst ` set ps \<or> (\<exists>d. entry s x = Some d \<and> healthy d \<noteq> None)"
      by auto
    ultimately show ?thesis using det by auto
  qed
  with run s'(2) show ?case by blast
qed

section \<open>The counter stays within its bounds\<close>

text \<open>
  C3. Bounded counter. Let \<open>successThreshold\<close> be positive and \<open>s\<close> be any state the
  two threads can reach from the initial table (all statuses unknown, no counter set);
  in particular the initial state itself. Then every finite sequence of probe results
  for endpoints of the registry is processed without raising, and afterwards every
  endpoint of the registry has an entry whose \<open>failed_checks\<close> is either still unset, which
  happens only if the endpoint has never been probed, or lies in
  \<open>[0, successThreshold]\<close>. Since the sequence is arbitrary, this holds after each
  application of the update rule.
\<close>

theorem failed_checks_bounded:
  assumes "0 < successThreshold cfg" "exec cfg evs (initial_state cfg) = Inr s"
    and "\<forall>p \<in> set ps. fst p \<in> set (address cfg)"
  shows "\<exists>s'. health_checks cfg ps s = Inr s' \<and>
           (\<forall>server \<in> set (address cfg). \<exists>d. entry s' server = Some d \<and>
              (case failed_checks d of
                 None \<Rightarrow> healthy d = None \<and> server \<notin> fst ` set ps
               | Some c \<Rightarrow> 0 \<le> c \<and> c \<le> successThreshold cfg))"
proof -
  from reachable_state_ok [OF assms(1,2)] have ok: "state_ok cfg s" .
  from health_checks_bounded [OF ok assms(1,3)]
  obtain s' where s': "health_checks cfg ps s = Inr s'" "state_ok cfg s'"
    and det: "\<forall>server. (server \<in> fst ` set ps \<or> (\<exists>d. entry s server = Some d \<and> healthy d \<noteq> None))
              \<longrightarrow> (\<exists>d. entry s' server = Some d \<and> healthy d \<noteq> None)" by blast
  have "\<exists>d. entry s' server = Some d \<and>
              (case failed_checks d of
                 None \<Rightarrow> healthy d = None \<and> server \<notin> fst ` set ps
               | Some c \<Rightarrow> 0 \<le> c \<and> c \<le> successThreshold cfg)"
    if srv: "server \<in> set (address cfg)" for server
  proof -
    from state_ok_entry [OF s'(2) srv] obtain d where d: "entry s' server = Some d"
      "entry_ok (successThreshold cfg) d" by blast
    show ?thesis
    proof (cases "failed_checks d")
      case None
      with d(2) have h: "healthy d = None" by (auto simp: entry_ok_def split: option.splits)
      have "server \<notin> fst ` set ps"
      proof
        assume "server \<in> fst ` set ps"
        with det obtain d2 where "entry s' server = Some d2" "healthy d2 \<noteq> None" by blast
        with d(1) h show False by simp
      qed
      with d(1) None h show ?thesis by simp
    next
      case (Some c)
      with d(2) have "0 \<le> c \<and> c \<le> successThreshold cfg"
        by (auto simp: entry_ok_def split: option.splits)
      with d(1) Some show ?thesis by simp
    qed
  qed
  with s'(1) show ?thesis by blast
qed

theorem failed_checks_bounded_witness:
  "\<exists>s' d c. health_checks
       \<lparr>address = [''t1'', ''t2''], successThreshold = 2, algorithm = ''prometheus'', durationMinutes = 3\<rparr>
       [(''t1'', False, 0), (''t1'', True, 0), (''t1'', False, 0), (''t1'', False, 0), (''t1'', False, 0)]
       (initial_state
          \<lparr>address = [''t1'', ''t2''], successThreshold = 2, algorithm = ''prometheus'', durationMinutes = 3\<rparr>)
     = Inr s' \<and> entry s' ''t1'' = Some d \<and> failed_checks d = Some c \<and> 0 \<le> c \<and> c \<le> 2"
proof -
  let ?cfg = "\<lparr>address = [''t1'', ''t2''], successThreshold = 2, algorithm = ''prometheus'', durationMinutes = 3\<rparr>"
  let ?ps = "[(''t1'', False, 0), (''t1'', True, 0), (''t1'', False, 0), (''t1'', False, 0), (''t1'', False, 0::nat)]"
  have h1: "0 < successThreshold ?cfg" by simp
  have h2: "exec ?cfg [] (initial_state ?cfg) = Inr (initial_state ?cfg)" by simp
  have h3: "\<forall>p \<in> set ?ps. fst p \<in> set (address ?cfg)" by simp
  from failed_checks_bounded [OF h1 h2 h3]
  obtain s' where s': "health_checks ?cfg ?ps (initial_state ?cfg) = Inr s'"
    and b: "\<forall>server \<in> set (address ?cfg). \<exists>d. entry s' server = Some d \<and>
              (case failed_checks d of
                 None \<Rightarrow> healthy d = None \<and> server \<notin> fst ` set ?ps
               | Some c \<Rightarrow> 0 \<le> c \<and> c \<le> successThreshold ?cfg)" by blast
  have "''t1'' \<in> set (address ?cfg)" by simp
  with b obtain d where d: "entry s' ''t1'' = Some d"
    "case failed_checks d of
       None \<Rightarrow> healthy d = None \<and> ''t1'' \<notin> fst ` set ?ps
     | Some c \<Rightarrow> 0 \<le> c \<and> c \<le> successThreshold ?cfg" by blast
  have "''t1'' \<in> fst ` set ?ps" by simp
  with d(2) obtain c where "failed_checks d = Some c" "0 \<le> c" "c \<le> 2"
    by (cases "failed_checks d") auto
  with s' d(1) show ?thesis by blast
qed

section \<open>The check of the current server\<close>

lemma filter_less_length:
  "length (filter P xs) < length xs \<Longrightarrow> \<exists>x \<in> set xs. \<not> P x"
  by (induction xs) (auto split: if_splits)

lemma partial_outage_has_healthy:
  assumes "\<forall>d \<in> set (dict_values td). healthy d \<noteq> None"
    and "unhealthy_count td < length (dict_items td)"
  shows "healthy_servers td \<noteq> []"
proof -
  have "length (filter (\<lambda>v. healthy v = Some False) (dict_values td)) < length (dict_values td)"
    using assms(2) by (simp add: unhealthy_count_def dict_values_def)
  from filter_less_length [OF this]
  obtain d where d: "d \<in> set (dict_values td)" "healthy d \<noteq> Some False" by blast
  with assms(1) have h: "healthy d = Some True" by (cases "healthy d") auto
  from d(1) obtain k where "(k, d) \<in> set (dict_items td)"
    unfolding dict_values_def by auto
  with h have "k \<in> set (healthy_servers td)" unfolding healthy_servers_set by blast
  then show ?thesis by auto
qed

lemma check_current_server_fires:
  assumes "turn_data s = Some td" "turn_server s = Some current" "current \<noteq> []"
    and "1 \<le> unhealthy_count td" "unhealthy_count td < length (dict_items td)"
    and "current \<notin> set (healthy_servers td)"
  shows "check_current_server cfg rnd s = random_healthy_server cfg rnd s"
  using assms by (simp add: check_current_server_def)

lemma check_current_server_idle:
  assumes "turn_data s = Some td"
    and "\<not> (\<exists>current. turn_server s = Some current \<and> current \<noteq> [] \<and>
             1 \<le> unhealthy_count td \<and> unhealthy_count td < length (dict_items td) \<and>
             current \<notin> set (healthy_servers td))"
  shows "check_current_server cfg rnd s = Inr s"
proof (cases "turn_server s")
  case None
  then show ?thesis by (simp add: check_current_server_def)
next
  case (Some current)
  with assms show ?thesis by (auto simp: check_current_server_def)
qed

lemma reachable_pending_unset:
  assumes "0 < successThreshold cfg" "exec cfg evs (initial_state cfg) = Inr s"
    and "initial_check_pending s"
  shows "turn_server s = None"
proof (cases "turn_server s")
  case None
  then show ?thesis .
next
  case (Some a)
  from reachable_state_ok [OF assms(1,2)] have "state_ok cfg s" .
  from state_ok_active [OF this Some] assms(3) show ?thesis by simp
qed

text \<open>
  C4. Reactive fast-path. In any state with a health table in which no status is
  unknown, an active endpoint is set (\<^verbatim>\<open>turn_server\<close> is truthy), at least one but not
  every endpoint is Unhealthy, and the active endpoint is not among the Healthy ones,
  \<^verbatim>\<open>check_current_server\<close> overwrites \<^verbatim>\<open>turn_server\<close> with a currently Healthy endpoint,
  which differs from the old one. In any state with a health table where the active
  endpoint is unset, or the Unhealthy count is zero or total, or the active endpoint is
  Healthy, it leaves the state as it is. And in every state the two threads can reach
  in which some status is still unknown, no active endpoint is set yet, so it leaves
  the state as it is there too.
\<close>

theorem check_current_server_reactive:
  assumes "turn_data s = Some td"
  shows "((\<forall>d \<in> set (dict_values td). healthy d \<noteq> None) \<and>
          turn_server s = Some current \<and> current \<noteq> [] \<and>
          1 \<le> unhealthy_count td \<and> unhealthy_count td < length (dict_items td) \<and>
          current \<notin> set (healthy_servers td)
          \<longrightarrow> (\<exists>a \<in> set (healthy_servers td).
                 check_current_server cfg rnd s = Inr (s\<lparr>turn_server := Some a\<rparr>) \<and> a \<noteq> current))
       \<and> (\<not> (\<exists>c. turn_server s = Some c \<and> c \<noteq> [] \<and>
                1 \<le> unhealthy_count td \<and> unhealthy_count td < length (dict_items td) \<and>
                c \<notin> set (healthy_servers td))
          \<longrightarrow> check_current_server cfg rnd s = Inr s)
       \<and> (0 < successThreshold cfg \<and> exec cfg evs (initial_state cfg) = Inr s \<and>
          initial_check_pending s
          \<longrightarrow> check_current_server cfg rnd s = Inr s)"
proof (intro conjI impI)
  assume h: "(\<forall>d \<in> set (dict_values td). healthy d \<noteq> None) \<and>
          turn_server s = Some current \<and> current \<noteq> [] \<and>
          1 \<le> unhealthy_count td \<and> unhealthy_count td < length (dict_items td) \<and>
          current \<notin> set (healthy_servers td)"
  then have h1: "\<forall>d \<in> set (dict_values td). healthy d \<noteq> None"
    and h2: "turn_server s = Some current" and h3: "current \<noteq> []"
    and h4: "1 \<le> unhealthy_count td" and h5: "unhealthy_count td < length (dict_items td)"
    and h6: "current \<notin> set (healthy_servers td)" by blast+
  from h1 h5 have ne: "healthy_servers td \<noteq> []" by (rule partial_outage_has_healthy)
  have "check_current_server cfg rnd s = random_healthy_server cfg rnd s"
    using assms h2 h3 h4 h5 h6 by (rule check_current_server_fires)
  moreover from random_healthy_server_healthy [OF assms ne, of cfg rnd]
  obtain a where "a \<in> set (healthy_servers td)"
    "random_healthy_server cfg rnd s = Inr (s\<lparr>turn_server := Some a\<rparr>)" by blast
  moreover from this(1) h6 have "a \<noteq> current" by auto
  ultimately show "\<exists>a \<in> set (healthy_servers td).
                 check_current_server cfg rnd s = Inr (s\<lparr>turn_server := Some a\<rparr>) \<and> a \<noteq> current"
    by auto
next
  assume "\<not> (\<exists>c. turn_server s = Some c \<and> c \<noteq> [] \<and>
                1 \<le> unhealthy_count td \<and> unhealthy_count td < length (dict_items td) \<and>
                c \<notin> set (healthy_servers td))"
  with assms show "check_current_server cfg rnd s = Inr s" by (rule check_current_server_idle)
next
  assume "0 < successThreshold cfg \<and> exec cfg evs (initial_state cfg) = Inr s \<and>
          initial_check_pending s"
  then have "0 < successThreshold cfg" "exec cfg evs (initial_state cfg) = Inr s"
    "initial_check_pending s" by blast+
  then have "turn_server s = None" by (rule reachable_pending_unset)
  then show "check_current_server cfg rnd s = Inr s" by (simp add: check_current_server_def)
qed

theorem check_current_server_reactive_witness:
  "check_current_server
     \<lparr>address = [''t1'', ''t2''], successThreshold = 3, algorithm = ''prometheus'', durationMinutes = 3\<rparr> 0
     \<lparr>turn_server = Some ''t1'',
      turn_data = Some [(''t1'', \<lparr>initial = 0, success_th = 3, failed_checks = Some 3, healthy = Some False\<rparr>),
                        (''t2'', \<lparr>initial = 0, success_th = 3, failed_checks = Some 0, healthy = Some True\<rparr>)]\<rparr>
   = Inr \<lparr>turn_server = Some ''t2'',
      turn_data = Some [(''t1'', \<lparr>initial = 0, success_th = 3, failed_checks = Some 3, healthy = Some False\<rparr>),
                        (''t2'', \<lparr>initial = 0, success_th = 3, failed_checks = Some 0, healthy = Some True\<rparr>)]\<rparr>
   \<and> check_current_server
     \<lparr>address = [''t1'', ''t2''], successThreshold = 3, algorithm = ''prometheus'', durationMinutes = 3\<rparr> 0
     \<lparr>turn_server = Some ''t2'',
      turn_data = Some [(''t1'', \<lparr>initial = 0, success_th = 3, failed_checks = Some 3, healthy = Some False\<rparr>),
                        (''t2'', \<lparr>initial = 0, success_th = 3, failed_checks = Some 0, healthy = Some True\<rparr>)]\<rparr>
   = Inr \<lparr>turn_server = Some ''t2'',
      turn_data = Some [(''t1'', \<lparr>initial = 0, success_th = 3, failed_checks = Some 3, healthy = Some False\<rparr>),
                        (''t2'', \<lparr>initial = 0, success_th = 3, failed_checks = Some 0, healthy = Some True\<rparr>)]\<rparr>
   \<and> check_current_server
     \<lparr>address = [''t1'', ''t2''], successThreshold = 3, algorithm = ''prometheus'', durationMinutes = 3\<rparr> 0
     (initial_state
        \<lparr>address = [''t1'', ''t2''], successThreshold = 3, algorithm = ''prometheus'', durationMinutes = 3\<rparr>)
   = Inr (initial_state
        \<lparr>address = [''t1'', ''t2''], successThreshold = 3, algorithm = ''prometheus'', durationMinutes = 3\<rparr>)"
proof -
  let ?cfg = "\<lparr>address = [''t1'', ''t2''], successThreshold = 3, algorithm = ''prometheus'', durationMinutes = 3\<rparr>"
  let ?td = "[(''t1'', \<lparr>initial = 0, success_th = 3, failed_checks = Some 3, healthy = Some False\<rparr>),
              (''t2'', \<lparr>initial = 0, success_th = 3, failed_checks = Some 0, healthy = Some True\<rparr>)]"
  let ?s1 = "\<lparr>turn_server = Some ''t1'', turn_data = Some ?td\<rparr>"
  let ?s2 = "\<lparr>turn_server = Some ''t2'', turn_data = Some ?td\<rparr>"
  have hs: "healthy_servers ?td = [''t2'']" by (simp add: healthy_servers_def dict_items_def)
  have uc: "unhealthy_count ?td = 1" "length (dict_items ?td) = 2"
    by (simp_all add: unhealthy_count_def dict_values_def dict_items_def)
  have det: "\<forall>d \<in> set (dict_values ?td). healthy d \<noteq> None"
    by (auto simp: dict_values_def dict_items_def)
  have t1: "turn_data ?s1 = Some ?td" and t2: "turn_data ?s2 = Some ?td" by simp_all
  have pre1: "(\<forall>d \<in> set (dict_values ?td). healthy d \<noteq> None) \<and>
          turn_server ?s1 = Some ''t1'' \<and> ''t1'' \<noteq> [] \<and>
          1 \<le> unhealthy_count ?td \<and> unhealthy_count ?td < length (dict_items ?td) \<and>
          ''t1'' \<notin> set (healthy_servers ?td)"
    using det by (simp add: hs uc)
  from check_current_server_reactive [OF t1, of "''t1''" ?cfg 0, THEN conjunct1, rule_format, OF pre1]
  have A: "check_current_server ?cfg 0 ?s1 = Inr ?s2" by (simp add: hs)
  have pre2: "\<not> (\<exists>c. turn_server ?s2 = Some c \<and> c \<noteq> [] \<and>
                1 \<le> unhealthy_count ?td \<and> unhealthy_count ?td < length (dict_items ?td) \<and>
                c \<notin> set (healthy_servers ?td))"
    by (simp add: hs)
  from check_current_server_reactive [OF t2, of _ ?cfg 0, THEN conjunct2, THEN conjunct1, rule_format, OF pre2]
  have B: "check_current_server ?cfg 0 ?s2 = Inr ?s2" .
  have t3: "turn_data (initial_state ?cfg) = Some (HealthCheck_init ?cfg)"
    by (simp add: initial_state_def)
  have pre3: "0 < successThreshold ?cfg \<and> exec ?cfg [] (initial_state ?cfg) = Inr (initial_state ?cfg) \<and>
          initial_check_pending (initial_state ?cfg)"
    by (simp add: initial_check_pending_def initial_state_def HealthCheck_init_def
        dict_values_def dict_items_def)
  from check_current_server_reactive [OF t3, of _ _ 0 "[]", THEN conjunct2, THEN conjunct2, rule_format, OF pre3]
  have C: "check_current_server ?cfg 0 (initial_state ?cfg) = Inr (initial_state ?cfg)" .
  from A B C show ?thesis by blast
qed

section \<open>The active endpoint is a registry member\<close>

lemma process_health_check_Inr_check:
  assumes "process_health_check cfg server passed rnd s = Inr s'"
  shows "\<exists>td'. check_current_server cfg rnd (s\<lparr>turn_data := Some td'\<rparr>) = Inr s'"
  using assms
  by (auto simp: process_health_check_def split: option.splits sum.splits)

lemma check_current_server_keeps_set:
  assumes "check_current_server cfg rnd s = Inr s'" "turn_server s \<noteq> None"
  shows "turn_server s' \<noteq> None"
proof -
  from check_current_server_Inr [OF assms(1)]
  consider "s' = s" | "random_healthy_server cfg rnd s = Inr s'" by blast
  then show ?thesis
  proof cases
    case 1
    with assms(2) show ?thesis by simp
  next
    case 2
    from random_healthy_server_Inr [OF 2] show ?thesis by auto
  qed
qed

lemma step_keeps_set:
  assumes "step cfg ev s = Inr s'" "turn_server s \<noteq> None"
  shows "turn_server s' \<noteq> None"
proof (cases ev)
  case (Probe server passed rnd)
  with assms(1) have "process_health_check cfg server passed rnd s = Inr s'"
    by (simp add: step_def)
  from process_health_check_Inr_check [OF this] obtain td' where
    c: "check_current_server cfg rnd (s\<lparr>turn_data := Some td'\<rparr>) = Inr s'" by blast
  have "turn_server (s\<lparr>turn_data := Some td'\<rparr>) \<noteq> None" using assms(2) by simp
  from check_current_server_keeps_set [OF c this] show ?thesis .
next
  case (Select resp rnd)
  show ?thesis
  proof (cases "initial_check_pending s")
    case True
    with assms Select show ?thesis by (simp add: step_def)
  next
    case False
    with assms(1) Select have "LoadBalancer_cycle cfg resp rnd s = Inr s'" by (simp add: step_def)
    from LoadBalancer_cycle_Inr [OF this] show ?thesis by auto
  qed
qed

lemma exec_keeps_set:
  assumes "exec cfg evs s = Inr s'" "turn_server s \<noteq> None"
  shows "turn_server s' \<noteq> None"
  using assms
proof (induction evs arbitrary: s)
  case Nil
  then show ?case by simp
next
  case (Cons ev evs)
  from Cons.prems(1) obtain s1 where s1: "step cfg ev s = Inr s1" "exec cfg evs s1 = Inr s'"
    by (cases "step cfg ev s") simp_all
  from step_keeps_set [OF s1(1) Cons.prems(2)] have "turn_server s1 \<noteq> None" .
  from Cons.IH [OF s1(2) this] show ?case .
qed

lemma state_ok_keys:
  assumes "state_ok cfg s" "turn_data s = Some td"
  shows "fst ` set td = set (address cfg)"
  using assms by (auto simp: state_ok_def)

lemma state_ok_member:
  assumes "state_ok cfg s" "turn_server s = Some a"
  shows "a \<in> set (address cfg)"
  using state_ok_active [OF assms] by simp

text \<open>
  C10. The active endpoint is a registry member. Let \<open>successThreshold\<close> be positive
  and \<open>s\<close> be a state the two threads can reach from the initial table. Then an active
  endpoint that is set in \<open>s\<close> is a member of the registry; whatever \<^verbatim>\<open>random_server\<close>,
  \<^verbatim>\<open>random_healthy_server\<close>, \<^verbatim>\<open>select_server\<close> (on the dict \<^verbatim>\<open>process_metrics\<close> returned), a
  whole pass of the load-balancer loop, or its single-healthy-endpoint shortcut writes
  into \<^verbatim>\<open>turn_server\<close> in \<open>s\<close> is a member of the registry; every step of either thread
  leaves \<^verbatim>\<open>turn_server\<close> as it was or writes a member of the registry; and once
  \<^verbatim>\<open>turn_server\<close> is set, it is a member of the registry after any further steps.
\<close>

theorem active_endpoint_in_registry:
  assumes "0 < successThreshold cfg" "exec cfg evs (initial_state cfg) = Inr s"
  shows "(\<forall>a. turn_server s = Some a \<longrightarrow> a \<in> set (address cfg))
       \<and> (\<forall>rnd s'. random_server cfg rnd s = Inr s' \<longrightarrow>
            (\<exists>a \<in> set (address cfg). turn_server s' = Some a))
       \<and> (\<forall>rnd s'. random_healthy_server cfg rnd s = Inr s' \<longrightarrow>
            (\<exists>a \<in> set (address cfg). turn_server s' = Some a))
       \<and> (\<forall>rnd qr metrics s'. process_metrics cfg qr = Inr metrics \<and>
              select_server rnd metrics s = Inr s' \<longrightarrow>
            (\<exists>a \<in> set (address cfg). turn_server s' = Some a))
       \<and> (\<forall>resp rnd s'. LoadBalancer_cycle cfg resp rnd s = Inr s' \<longrightarrow>
            (\<exists>a \<in> set (address cfg). turn_server s' = Some a))
       \<and> (\<forall>td a. turn_data s = Some td \<and> healthy_servers td = [a] \<longrightarrow>
            concat (healthy_servers td) \<in> set (address cfg))
       \<and> (\<forall>ev s'. step cfg ev s = Inr s' \<longrightarrow>
            turn_server s' = turn_server s \<or> (\<exists>a \<in> set (address cfg). turn_server s' = Some a))
       \<and> (\<forall>evs' s'. exec cfg evs' s = Inr s' \<and> turn_server s \<noteq> None \<longrightarrow>
            (\<exists>a \<in> set (address cfg). turn_server s' = Some a))"
proof -
  from reachable_state_ok [OF assms] have ok: "state_ok cfg s" .
  have A: "a \<in> set (address cfg)" if "turn_server s = Some a" for a
    using ok that by (rule state_ok_member)
  have B: "\<exists>a \<in> set (address cfg). turn_server s' = Some a"
    if "random_server cfg rnd s = Inr s'" for rnd s'
    using random_server_Inr [OF that] by auto
  have C: "\<exists>a \<in> set (address cfg). turn_server s' = Some a"
    if "random_healthy_server cfg rnd s = Inr s'" for rnd s'
  proof -
    from random_healthy_server_Inr [OF that] obtain td a where a: "turn_data s = Some td"
      "s' = s\<lparr>turn_server := Some a\<rparr>"
      "if healthy_servers td \<noteq> [] then a \<in> set (healthy_servers td) else a \<in> set (address cfg)"
      by blast
    have "a \<in> set (address cfg)"
      using a(3) healthy_servers_keys [of td] state_ok_keys [OF ok a(1)] by (auto split: if_splits)
    with a(2) show ?thesis by auto
  qed
  have D: "\<exists>a \<in> set (address cfg). turn_server s' = Some a"
    if "process_metrics cfg qr = Inr metrics" "select_server rnd metrics s = Inr s'"
    for rnd qr metrics s'
    using select_server_key [OF that(2)] process_metrics_keys [OF that(1)] by auto
  have E: "\<exists>a \<in> set (address cfg). turn_server s' = Some a"
    if "LoadBalancer_cycle cfg resp rnd s = Inr s'" for resp rnd s'
  proof -
    from LoadBalancer_cycle_Inr [OF that] obtain td a where a: "turn_data s = Some td"
      "s' = s\<lparr>turn_server := Some a\<rparr>" "a \<in> fst ` set td \<or> a \<in> set (address cfg)" by blast
    from a(3) state_ok_keys [OF ok a(1)] have "a \<in> set (address cfg)" by auto
    with a(2) show ?thesis by auto
  qed
  have F: "concat (healthy_servers td) \<in> set (address cfg)"
    if "turn_data s = Some td" "healthy_servers td = [a]" for td a
    using healthy_servers_keys [of td] state_ok_keys [OF ok that(1)] that(2) by auto
  have G: "turn_server s' = turn_server s \<or> (\<exists>a \<in> set (address cfg). turn_server s' = Some a)"
    if st: "step cfg ev s = Inr s'" for ev s'
  proof (cases "turn_server s'")
    case None
    have "turn_server s = None"
    proof (rule ccontr)
      assume "turn_server s \<noteq> None"
      from step_keeps_set [OF st this] None show False by simp
    qed
    with None show ?thesis by simp
  next
    case (Some a)
    from state_ok_step [OF ok assms(1) st] have "state_ok cfg s'" .
    from state_ok_member [OF this Some] Some show ?thesis by simp
  qed
  have H: "\<exists>a \<in> set (address cfg). turn_server s' = Some a"
    if ex: "exec cfg evs' s = Inr s'" and set: "turn_server s \<noteq> None" for evs' s'
  proof -
    from exec_keeps_set [OF ex set] obtain a where a: "turn_server s' = Some a" by auto
    from state_ok_exec [OF ok assms(1) ex] have "state_ok cfg s'" .
    from state_ok_member [OF this a] a show ?thesis by simp
  qed
  show ?thesis
    apply (intro conjI allI impI)
    subgoal for a by (rule A)
    subgoal for rnd s' by (rule B)
    subgoal for rnd s' by (rule C)
    subgoal for rnd qr metrics s' by (rule D [of qr metrics rnd s']) simp_all
    subgoal for resp rnd s' by (rule E)
    subgoal for td a by (rule F [of td a]) simp_all
    subgoal for ev s' by (rule G)
    subgoal for evs' s' by (rule H [of evs' s']) simp_all
    done
qed

theorem active_endpoint_in_registry_witness:
  "exec \<lparr>address = [''t1'', ''t2''], successThreshold = 3, algorithm = ''prometheus'', durationMinutes = 3\<rparr>
     [Probe ''t1'' True 0, Probe ''t2'' True 0, Select RequestRaises 1]
     (initial_state
        \<lparr>address = [''t1'', ''t2''], successThreshold = 3, algorithm = ''prometheus'', durationMinutes = 3\<rparr>)
   = Inr \<lparr>turn_server = Some ''t2'',
      turn_data = Some [(''t1'', \<lparr>initial = 0, success_th = 3, failed_checks = Some 0, healthy = Some True\<rparr>),
                        (''t2'', \<lparr>initial = 0, success_th = 3, failed_checks = Some 0, healthy = Some True\<rparr>)]\<rparr>
   \<and> ''t2'' \<in> set (address
        \<lparr>address = [''t1'', ''t2''], successThreshold = 3, algorithm = ''prometheus'', durationMinutes = 3\<rparr>)"
proof -
  let ?cfg = "\<lparr>address = [''t1'', ''t2''], successThreshold = 3, algorithm = ''prometheus'', durationMinutes = 3\<rparr>"
  let ?h = "\<lparr>initial = 0, success_th = 3, failed_checks = Some 0, healthy = Some True\<rparr>"
  let ?s = "\<lparr>turn_server = Some ''t2'', turn_data = Some [(''t1'', ?h), (''t2'', ?h)]\<rparr>"
  have h1: "0 < successThreshold ?cfg" by simp
  have h2: "exec ?cfg [Probe ''t1'' True 0, Probe ''t2'' True 0, Select RequestRaises 1]
              (initial_state ?cfg) = Inr ?s"
    by (simp add: step_def initial_state_def HealthCheck_init_def process_health_check_def
        update_failed_checks_def update_healthy_def check_current_server_def
        initial_check_pending_def dict_values_def dict_items_def LoadBalancer_cycle_def
        healthy_servers_def get_prometheus_metrics_def random_healthy_server_def choice_def)
  from active_endpoint_in_registry [OF h1 h2, THEN conjunct1, rule_format, of "''t2''"]
  have "''t2'' \<in> set (address ?cfg)" by simp
  with h2 show ?thesis by blast
qed

end
